theory Spec2Isabelle
  imports Main "HOL-Library.Word"
begin

unbundle bit_operations_syntax

section \<open>Machine integers and errors\<close>

type_synonym byte = "8 word"
type_synonym uint16 = "16 word"
type_synonym uint32 = "32 word"

text \<open>
  Errors are values. \<open>TruncatedInput\<close> is the byte reader's report that fewer bytes
  remain than were requested; \<open>ErrNegativeCount\<close> is what a discard of a negative
  count is refused with; \<open>IndexOutOfRange\<close> is Go's run-time panic on an array index
  beyond the array. \<open>Wrap e msg\<close> is \<^verbatim>\<open>errors.Wrap(e, msg)\<close> and \<open>Wrapf e fmt n\<close> is
  \<^verbatim>\<open>errors.Wrapf(e, fmt, n)\<close> with one integer argument.
\<close>

datatype error =
    TruncatedInput
  | ErrNegativeCount
  | IndexOutOfRange
  | Wrap error string
  | Wrapf error string nat

text \<open>Little-endian assembly of 16-bit and 32-bit values from bytes.\<close>

definition le16 :: "byte \<Rightarrow> byte \<Rightarrow> uint16" where
  "le16 b0 b1 = (ucast b0 :: uint16) OR push_bit 8 (ucast b1 :: uint16)"

definition le32 :: "byte \<Rightarrow> byte \<Rightarrow> byte \<Rightarrow> byte \<Rightarrow> uint32" where
  "le32 b0 b1 b2 b3 =
     (ucast b0 :: uint32) OR push_bit 8 (ucast b1 :: uint32)
       OR push_bit 16 (ucast b2 :: uint32) OR push_bit 24 (ucast b3 :: uint32)"

section \<open>The byte reader\<close>

text \<open>
  Modelled from the spec: the byte reader (\<^verbatim>\<open>storage.Reader\<close> of the disk and block
  packages, \<^verbatim>\<open>tape.File\<close> of the tzx package) is not among the sources; only its
  callers are. The spec describes it as a sequential cursor over a byte source with
  fixed-size reads, little-endian integer reads and discarding of N bytes, which
  reports an error when fewer bytes remain than requested. The reader's state is the
  list of bytes not yet consumed, so that consuming \<open>n\<close> bytes is \<open>drop n\<close>. A read
  that cannot be served is \<open>Inl TruncatedInput\<close> and leaves the cursor where it was.
\<close>

type_synonym Reader = "byte list"

definition ReadByte :: "Reader \<Rightarrow> error + (byte \<times> Reader)" where
  "ReadByte r = (case r of [] \<Rightarrow> Inl TruncatedInput | b # r' \<Rightarrow> Inr (b, r'))"

definition ReadNextBytes :: "nat \<Rightarrow> Reader \<Rightarrow> error + (byte list \<times> Reader)" where
  "ReadNextBytes n r =
     (if length r < n then Inl TruncatedInput else Inr (take n r, drop n r))"

definition ReadShort :: "Reader \<Rightarrow> error + (uint16 \<times> Reader)" where
  "ReadShort r =
     (case r of
        b0 # b1 # r' \<Rightarrow> Inr (le16 b0 b1, r')
      | _ \<Rightarrow> Inl TruncatedInput)"

text \<open>
  Modelled from the spec: \<^verbatim>\<open>Discard\<close> of the absent byte reader. Its call site takes
  two results, a count and an error, as Go's \<^verbatim>\<open>bufio.Reader.Discard\<close> gives them:
  a negative count is refused and nothing is skipped; when fewer bytes remain than
  requested, all of them are skipped and the error is reported; otherwise exactly
  \<open>n\<close> bytes are skipped. In particular a count of zero skips nothing and is no error.
\<close>

definition Discard :: "int \<Rightarrow> Reader \<Rightarrow> nat \<times> Reader \<times> error option" where
  "Discard n r =
     (if n < 0 then (0, r, Some ErrNegativeCount)
      else if length r < nat n then (length r, [], Some TruncatedInput)
      else (nat n, drop (nat n) r, None))"

text \<open>
  Modelled from the spec: \<^verbatim>\<open>ReadBytes\<close> and \<^verbatim>\<open>ReadLong\<close> of \<^verbatim>\<open>tape.File\<close>, which is
  not among the sources: a fixed-size read and a little-endian 32-bit read.
\<close>

type_synonym File = "byte list"

definition ReadBytes :: "nat \<Rightarrow> File \<Rightarrow> error + (byte list \<times> File)" where
  "ReadBytes n f =
     (if length f < n then Inl TruncatedInput else Inr (take n f, drop n f))"

definition ReadLong :: "File \<Rightarrow> error + (uint32 \<times> File)" where
  "ReadLong f =
     (case f of
        b0 # b1 # b2 # b3 # f' \<Rightarrow> Inr (le32 b0 b1 b2 b3, f')
      | _ \<Rightarrow> Inl TruncatedInput)"

section \<open>CallSequence (block 0x26)\<close>

record CallSequence =
  Count :: uint16
  Blocks :: "uint16 list"

text \<open>The zero value of the struct: what a freshly declared \<^verbatim>\<open>CallSequence{}\<close> is.\<close>

definition CallSequence_zero :: CallSequence where
  "CallSequence_zero = \<lparr>Count = 0, Blocks = []\<rparr>"

text \<open>
  The loop of \<^verbatim>\<open>CallSequence.Read\<close>:
  \<^verbatim>\<open>for i := 0; i < int(c.Count); i++ { c.Blocks = append(c.Blocks, reader.ReadShort()) }\<close>.
  The bound is read from the receiver at every iteration, as in the source.
\<close>

function CallSequence_loop ::
  "nat \<Rightarrow> CallSequence \<times> Reader \<Rightarrow> error + (CallSequence \<times> Reader)" where
  "CallSequence_loop i (c, r) =
     (if i < unat (Count c) then
        (case ReadShort r of
           Inl e \<Rightarrow> Inl e
         | Inr (w, r') \<Rightarrow> CallSequence_loop (Suc i) (c\<lparr>Blocks := Blocks c @ [w]\<rparr>, r'))
      else Inr (c, r))"
  by pat_completeness auto
termination
  by (relation "measure (\<lambda>(i, c, r). unat (Count c) - i)") auto

declare CallSequence_loop.simps [simp del]

definition CallSequence_Read ::
  "CallSequence \<times> Reader \<Rightarrow> error + (CallSequence \<times> Reader)" where
  "CallSequence_Read s =
     (case s of (c, r) \<Rightarrow>
        (case ReadShort r of
           Inl e \<Rightarrow> Inl e
         | Inr (n, r') \<Rightarrow> CallSequence_loop 0 (c\<lparr>Count := n\<rparr>, r')))"

text \<open>
  The offsets of an encoded CallSequence, read off the input: offset \<open>i\<close> is the
  little-endian word at bytes \<open>2 + 2 i\<close> and \<open>3 + 2 i\<close>.
\<close>

definition offsets_of :: "byte list \<Rightarrow> nat \<Rightarrow> uint16 list" where
  "offsets_of bs n = map (\<lambda>i. le16 (bs ! (2 + 2 * i)) (bs ! (3 + 2 * i))) [0..<n]"

section \<open>CustomInfo (block 0x35)\<close>

record CustomInfo =
  Identification :: "byte list"
  Length :: uint32
  Info :: "byte list"

text \<open>
  \<open>Identification\<close> is the fixed array \<^verbatim>\<open>[10]byte\<close>; the zero value of the struct has
  ten zero bytes there, length 0 and a nil \<open>Info\<close>.
\<close>

definition CustomInfo_zero :: CustomInfo where
  "CustomInfo_zero = \<lparr>Identification = replicate 10 0, Length = 0, Info = []\<rparr>"

text \<open>
  \<^verbatim>\<open>for i, b := range bs { arr[i] = b }\<close>: an index beyond the array is Go's run-time
  panic.
\<close>

fun set_each :: "nat \<Rightarrow> byte list \<Rightarrow> byte list \<Rightarrow> error + byte list" where
  "set_each i [] arr = Inr arr"
| "set_each i (b # bs) arr =
     (if i < length arr then set_each (Suc i) bs (arr[i := b]) else Inl IndexOutOfRange)"

text \<open>\<^verbatim>\<open>for _, b := range bs { acc = append(acc, b) }\<close>\<close>

fun append_each :: "byte list \<Rightarrow> byte list \<Rightarrow> byte list" where
  "append_each [] acc = acc"
| "append_each (b # bs) acc = append_each bs (acc @ [b])"

text \<open>
  \<^verbatim>\<open>CustomInfo.Read\<close>. The conversion \<^verbatim>\<open>int(c.Length)\<close> of a \<^verbatim>\<open>uint32\<close> is exact where
  Go's \<^verbatim>\<open>int\<close> has 64 bits, which is what \<open>unat\<close> models.
\<close>

definition CustomInfo_Read :: "CustomInfo \<times> File \<Rightarrow> error + (CustomInfo \<times> File)" where
  "CustomInfo_Read s =
     (case s of (c, file) \<Rightarrow>
        (case ReadBytes 10 file of
           Inl e \<Rightarrow> Inl e
         | Inr (bs, file1) \<Rightarrow>
             (case set_each 0 bs (Identification c) of
                Inl e \<Rightarrow> Inl e
              | Inr ident \<Rightarrow>
                  (case ReadLong file1 of
                     Inl e \<Rightarrow> Inl e
                   | Inr (n, file2) \<Rightarrow>
                       (case ReadBytes (unat n) file2 of
                          Inl e \<Rightarrow> Inl e
                        | Inr (info, file3) \<Rightarrow>
                            Inr (c\<lparr>Identification := ident, Length := n,
                                   Info := append_each info (Info c)\<rparr>, file3))))))"

section \<open>TrackInformation (disk track)\<close>

text \<open>
  The struct \<^verbatim>\<open>TrackInformation\<close>. The fixed arrays \<^verbatim>\<open>[13]byte\<close>, \<^verbatim>\<open>[3]byte\<close> and
  \<^verbatim>\<open>[2]byte\<close> are byte lists of that length. The declaration of \<^verbatim>\<open>SectorInformation\<close>
  is not among the sources, so the type of a sector descriptor is the parameter \<open>'s\<close>.
\<close>

record 's TrackInformation =
  Identifier :: "byte list"
  Unused1 :: "byte list"
  Track :: byte
  Side :: byte
  Unused2 :: "byte list"
  SectorSize :: byte
  SectorsCount :: byte
  GapLength :: byte
  FillerByte :: byte
  Sectors :: "'s list"
  Data :: "byte list list"

definition TrackInformation_zero :: "'s TrackInformation" where
  "TrackInformation_zero =
     \<lparr>Identifier = replicate 13 0, Unused1 = replicate 3 0, Track = 0, Side = 0,
      Unused2 = replicate 2 0, SectorSize = 0, SectorsCount = 0, GapLength = 0,
      FillerByte = 0, Sectors = [], Data = []\<rparr>"

definition trackInformationBlockSize :: int where
  "trackInformationBlockSize = 24"

definition sectorDataStartAddress :: int where
  "sectorDataStartAddress = 0x0100"

text \<open>Go's built-in \<^verbatim>\<open>copy(dst, src)\<close>: the first \<open>min (len dst) (len src)\<close> elements are overwritten.\<close>

definition copy_bytes :: "byte list \<Rightarrow> byte list \<Rightarrow> byte list" where
  "copy_bytes dst src = take (length dst) src @ drop (length src) dst"

text \<open>
  \<^verbatim>\<open>SectorInformation.Read\<close> and \<^verbatim>\<open>SectorInformation.DataRead\<close> are not among the
  sources; the track decoder takes them as parameters. A descriptor read starts from
  a fresh \<^verbatim>\<open>SectorInformation{}\<close> and gives the descriptor, the reader it leaves and
  its error result; a payload read takes the descriptor and gives the payload, the
  reader it leaves and its error result.
\<close>

type_synonym 's SectorRead = "Reader \<Rightarrow> 's \<times> Reader \<times> error option"
type_synonym 's DataRead = "'s \<Rightarrow> Reader \<Rightarrow> byte list \<times> Reader \<times> error option"
type_synonym 's TrackState = "'s TrackInformation \<times> Reader"

text \<open>
  The nine header statements of \<^verbatim>\<open>TrackInformation.Read\<close> (lines 87 to 95), in source
  order. A read the reader cannot serve ends the method with the reader's error and
  the receiver as assigned so far.
\<close>

definition readHeader :: "'s TrackState \<Rightarrow> 's TrackState \<times> error option" where
  "readHeader s =
     (case s of (t, r) \<Rightarrow>
     (case ReadNextBytes 13 r of Inl e \<Rightarrow> ((t, r), Some e) | Inr (b, r) \<Rightarrow>
        let t = t\<lparr>Identifier := copy_bytes (Identifier t) b\<rparr> in
     (case ReadNextBytes 3 r of Inl e \<Rightarrow> ((t, r), Some e) | Inr (b, r) \<Rightarrow>
        let t = t\<lparr>Unused1 := copy_bytes (Unused1 t) b\<rparr> in
     (case ReadByte r of Inl e \<Rightarrow> ((t, r), Some e) | Inr (b, r) \<Rightarrow>
        let t = t\<lparr>Track := b\<rparr> in
     (case ReadByte r of Inl e \<Rightarrow> ((t, r), Some e) | Inr (b, r) \<Rightarrow>
        let t = t\<lparr>Side := b\<rparr> in
     (case ReadNextBytes 2 r of Inl e \<Rightarrow> ((t, r), Some e) | Inr (b, r) \<Rightarrow>
        let t = t\<lparr>Unused2 := copy_bytes (Unused2 t) b\<rparr> in
     (case ReadByte r of Inl e \<Rightarrow> ((t, r), Some e) | Inr (b, r) \<Rightarrow>
        let t = t\<lparr>SectorSize := b\<rparr> in
     (case ReadByte r of Inl e \<Rightarrow> ((t, r), Some e) | Inr (b, r) \<Rightarrow>
        let t = t\<lparr>SectorsCount := b\<rparr> in
     (case ReadByte r of Inl e \<Rightarrow> ((t, r), Some e) | Inr (b, r) \<Rightarrow>
        let t = t\<lparr>GapLength := b\<rparr> in
     (case ReadByte r of Inl e \<Rightarrow> ((t, r), Some e) | Inr (b, r) \<Rightarrow>
        let t = t\<lparr>FillerByte := b\<rparr> in
        ((t, r), None)))))))))))"

text \<open>
  The loop of \<^verbatim>\<open>readSectorInformationBlocks\<close>:
  \<^verbatim>\<open>for i := 0; i < int(t.SectorsCount); i++\<close>, with the early return of the wrapped
  error, numbered \<open>i + 1\<close>.
\<close>

function sector_loop ::
  "'s SectorRead \<Rightarrow> nat \<Rightarrow> 's TrackState \<Rightarrow> 's TrackState \<times> error option" where
  "sector_loop sread i (t, r) =
     (if i < unat (SectorsCount t) then
        (case sread r of
           (sector, r', Some err) \<Rightarrow>
             ((t, r'), Some (Wrapf err ''error reading sector #%d'' (i + 1)))
         | (sector, r', None) \<Rightarrow>
             sector_loop sread (Suc i) (t\<lparr>Sectors := Sectors t @ [sector]\<rparr>, r'))
      else ((t, r), None))"
  by pat_completeness auto
termination
  by (relation "measure (\<lambda>(sread, i, t, r). unat (SectorsCount t) - i)") auto

declare sector_loop.simps [simp del]

definition readSectorInformationBlocks ::
  "'s SectorRead \<Rightarrow> 's TrackState \<Rightarrow> 's TrackState \<times> error option" where
  "readSectorInformationBlocks sread s = sector_loop sread 0 s"

text \<open>
  \<^verbatim>\<open>setBufferToDataAddress\<close>. The constant \<^verbatim>\<open>sectorInformationBlockSize\<close> is not among
  the sources and is the first parameter. The arithmetic is Go's \<^verbatim>\<open>int\<close>, which the
  values here (at most 255 descriptors) do not overflow.
\<close>

definition setBufferToDataAddress ::
  "int \<Rightarrow> 's TrackState \<Rightarrow> 's TrackState \<times> error option" where
  "setBufferToDataAddress sectorInformationBlockSize s =
     (case s of (t, r) \<Rightarrow>
        (let blockSize = int (unat (SectorsCount t)) * sectorInformationBlockSize;
             usedBytes = trackInformationBlockSize + blockSize
         in (case Discard (sectorDataStartAddress - usedBytes) r of
               (n, r', Some err) \<Rightarrow>
                 ((t, r'), Some (Wrap err ''error moving reader position to 0x0100''))
             | (n, r', None) \<Rightarrow> ((t, r'), None))))"

text \<open>
  The loop of \<^verbatim>\<open>readSectorData\<close>: \<^verbatim>\<open>for i, s := range t.Sectors\<close>. The range
  expression is evaluated once, so the loop runs over the descriptor list as it is
  on entry; the wrapped error is numbered \<open>i\<close>.
\<close>

fun data_loop ::
  "'s DataRead \<Rightarrow> nat \<Rightarrow> 's list \<Rightarrow> 's TrackState \<Rightarrow> 's TrackState \<times> error option" where
  "data_loop dread i [] (t, r) = ((t, r), None)"
| "data_loop dread i (s # ss) (t, r) =
     (case dread s r of
        (data, r', Some err) \<Rightarrow>
          ((t, r'), Some (Wrapf err ''error reading sector #%d'' i))
      | (data, r', None) \<Rightarrow>
          data_loop dread (Suc i) ss (t\<lparr>Data := Data t @ [data]\<rparr>, r'))"

definition readSectorData ::
  "'s DataRead \<Rightarrow> 's TrackState \<Rightarrow> 's TrackState \<times> error option" where
  "readSectorData dread s = (case s of (t, r) \<Rightarrow> data_loop dread 0 (Sectors t) (t, r))"

text \<open>
  \<^verbatim>\<open>TrackInformation.Read\<close>: the header, then the three phases, each with its early
  return. The result is the receiver and the reader as the call leaves them, and the
  error returned (\<open>None\<close> for \<^verbatim>\<open>nil\<close>).
\<close>

definition TrackInformation_Read ::
  "'s SectorRead \<Rightarrow> 's DataRead \<Rightarrow> int \<Rightarrow> 's TrackState \<Rightarrow> 's TrackState \<times> error option" where
  "TrackInformation_Read sread dread sectorInformationBlockSize s =
     (case readHeader s of
        (s1, Some err) \<Rightarrow> (s1, Some err)
      | (s1, None) \<Rightarrow>
     (case readSectorInformationBlocks sread s1 of
        (s2, Some err) \<Rightarrow> (s2, Some err)
      | (s2, None) \<Rightarrow>
     (case setBufferToDataAddress sectorInformationBlockSize s2 of
        (s3, Some err) \<Rightarrow> (s3, Some err)
      | (s3, None) \<Rightarrow>
     (case readSectorData dread s3 of
        (s4, Some err) \<Rightarrow> (s4, Some err)
      | (s4, None) \<Rightarrow> (s4, None)))))"

text \<open>
  What the stream offers, stated apart from the loops: \<open>descriptors_read sread k r\<close>
  is the outcome of \<open>k\<close> descriptor reads in a row from \<open>r\<close>, each starting where the
  one before ended (\<open>None\<close> when one of them reports an error), and
  \<open>payloads_read dread ss r\<close> is the same for one payload read per descriptor of \<open>ss\<close>,
  in the order of \<open>ss\<close>.
\<close>

fun descriptors_read :: "'s SectorRead \<Rightarrow> nat \<Rightarrow> Reader \<Rightarrow> ('s list \<times> Reader) option" where
  "descriptors_read sread 0 r = Some ([], r)"
| "descriptors_read sread (Suc k) r =
     (case sread r of
        (s, r', Some err) \<Rightarrow> None
      | (s, r', None) \<Rightarrow>
          (case descriptors_read sread k r' of
             None \<Rightarrow> None
           | Some (ss, r'') \<Rightarrow> Some (s # ss, r'')))"

fun payloads_read ::
  "'s DataRead \<Rightarrow> 's list \<Rightarrow> Reader \<Rightarrow> (byte list list \<times> Reader) option" where
  "payloads_read dread [] r = Some ([], r)"
| "payloads_read dread (s # ss) r =
     (case dread s r of
        (d, r', Some err) \<Rightarrow> None
      | (d, r', None) \<Rightarrow>
          (case payloads_read dread ss r' of
             None \<Rightarrow> None
           | Some (ds, r'') \<Rightarrow> Some (d # ds, r'')))"

text \<open>
  Modelled from the spec: \<^verbatim>\<open>SectorInformation.Read\<close>, which is not among the sources.
  The spec has the track decoder decode fixed-size sector descriptors; here a
  descriptor is kept as its \<open>n\<close> raw bytes.
\<close>

definition SectorInformation_Read :: "nat \<Rightarrow> (byte list) SectorRead" where
  "SectorInformation_Read n r =
     (case ReadNextBytes n r of
        Inl e \<Rightarrow> ([], r, Some e)
      | Inr (bs, r') \<Rightarrow> (bs, r', None))"

text \<open>
  Modelled from the spec: \<^verbatim>\<open>SectorInformation.DataRead\<close>, which is not among the
  sources. The spec has it read a payload whose byte length is derived from the
  declared sector size and is uniform across the track; that byte length is the
  parameter \<open>sectorByteSize\<close>.
\<close>

definition SectorInformation_DataRead :: "nat \<Rightarrow> (byte list) DataRead" where
  "SectorInformation_DataRead sectorByteSize s r =
     (case ReadNextBytes sectorByteSize r of
        Inl e \<Rightarrow> ([], r, Some e)
      | Inr (bs, r') \<Rightarrow> (bs, r', None))"

text \<open>
  The reader as the header, the descriptor table and the discard leave it: the
  position the payload reads start from.
\<close>

definition reader_at_data :: "'s SectorRead \<Rightarrow> int \<Rightarrow> 's TrackState \<Rightarrow> Reader" where
  "reader_at_data sread sectorInformationBlockSize s =
     snd (fst (setBufferToDataAddress sectorInformationBlockSize
       (fst (readSectorInformationBlocks sread (fst (readHeader s))))))"

section \<open>The tape control-flow resolver\<close>

text \<open>
  Modelled from the spec: the control-flow resolver. The sources hold declarations
  and decode routines of blocks only; no resolver is among them. The model follows
  section 4.2 of the spec: a deterministic state machine over the Tape Directory
  whose state is the current index, the call stack of saved return positions and
  the active-loop stack of (start index, remaining count); the initial state is
  index 0 with empty stacks, and a current index outside the directory is the
  normal end of the tape. A data-only block plays (its index joins the effective
  order) and the index advances by one; the control blocks play nothing.
  \<^item> \<open>LoopStart count\<close> at \<open>i\<close>: \<open>NestedLoopNotAllowed\<close> while a loop is active,
    \<open>InvalidLoopCount\<close> for a count of 0, otherwise the loop \<open>(i, count)\<close> becomes
    active and play continues at \<open>i + 1\<close>.
  \<^item> \<open>LoopEnd\<close> at \<open>j\<close>: with more than one repetition remaining the count drops by one
    and play continues at the loop's start index plus one; otherwise the loop ends
    and play continues at \<open>j + 1\<close>.
  \<^item> \<open>JumpTo offset\<close> at \<open>i\<close>: offsets 0 and 1 mean the next block; any other offset
    continues at \<open>i + offset\<close>.
  \<^item> \<open>CallSeq offsets\<close> at \<open>i\<close>: \<open>NestedCallNotAllowed\<close> while the call stack is not
    empty; otherwise the positions still to visit (the further call targets, then
    \<open>i + 1\<close>) are pushed and play continues at \<open>i +\<close> the first offset.
  \<^item> \<open>ReturnFromSequence\<close>: \<open>ReturnWithoutCall\<close> on an empty call stack, otherwise play
    resumes at the popped position.
  \<^item> \<open>Select offsets\<close>: with no choice supplied, the first candidate.
  A jump, call or select target outside the directory is \<open>UnresolvedJumpTarget\<close>.
  Where the spec gives no rule (a \<open>LoopEnd\<close> with no active loop, an empty list of
  call targets or of candidates) the model answers \<open>NotSpecified\<close>. The number of
  steps is bounded by the caller's maximum step count, as in section 6 of the spec;
  \<open>StepLimitReached\<close> says the bound was hit before the end of the tape.
\<close>

datatype block =
    DataOnly string
  | LoopStart nat
  | LoopEnd
  | JumpTo int
  | CallSeq "int list"
  | ReturnFromSequence
  | Select "int list"

datatype resolve_error =
    NestedLoopNotAllowed
  | InvalidLoopCount
  | NestedCallNotAllowed
  | ReturnWithoutCall
  | UnresolvedJumpTarget
  | NotSpecified
  | StepLimitReached

record resolver_state =
  current :: int
  calls :: "int list"
  loops :: "(int \<times> nat) list"

definition initial_state :: resolver_state where
  "initial_state = \<lparr>current = 0, calls = [], loops = []\<rparr>"

definition at_end :: "block list \<Rightarrow> resolver_state \<Rightarrow> bool" where
  "at_end dir st = (current st < 0 \<or> int (length dir) \<le> current st)"

definition goto :: "block list \<Rightarrow> resolver_state \<Rightarrow> int \<Rightarrow> resolve_error + (nat list \<times> resolver_state)" where
  "goto dir st target =
     (if 0 \<le> target \<and> target < int (length dir)
      then Inr ([], st\<lparr>current := target\<rparr>)
      else Inl UnresolvedJumpTarget)"

definition step :: "block list \<Rightarrow> resolver_state \<Rightarrow> resolve_error + (nat list \<times> resolver_state)" where
  "step dir st =
     (let i = current st in
      case dir ! nat i of
        DataOnly name \<Rightarrow> Inr ([nat i], st\<lparr>current := i + 1\<rparr>)
      | LoopStart count \<Rightarrow>
          if loops st \<noteq> [] then Inl NestedLoopNotAllowed
          else if count = 0 then Inl InvalidLoopCount
          else Inr ([], st\<lparr>current := i + 1, loops := [(i, count)]\<rparr>)
      | LoopEnd \<Rightarrow>
          (case loops st of
             [] \<Rightarrow> Inl NotSpecified
           | (start, remaining) # rest \<Rightarrow>
               if 1 < remaining
               then Inr ([], st\<lparr>current := start + 1, loops := (start, remaining - 1) # rest\<rparr>)
               else Inr ([], st\<lparr>current := i + 1, loops := rest\<rparr>))
      | JumpTo offset \<Rightarrow>
          if offset = 0 \<or> offset = 1 then Inr ([], st\<lparr>current := i + 1\<rparr>)
          else goto dir st (i + offset)
      | CallSeq offsets \<Rightarrow>
          if calls st \<noteq> [] then Inl NestedCallNotAllowed
          else (case offsets of
                  [] \<Rightarrow> Inl NotSpecified
                | off # others \<Rightarrow>
                    goto dir (st\<lparr>calls := map (\<lambda>x. i + x) others @ [i + 1]\<rparr>) (i + off))
      | ReturnFromSequence \<Rightarrow>
          (case calls st of
             [] \<Rightarrow> Inl ReturnWithoutCall
           | saved # rest \<Rightarrow> Inr ([], st\<lparr>current := saved, calls := rest\<rparr>))
      | Select offsets \<Rightarrow>
          (case offsets of
             [] \<Rightarrow> Inl NotSpecified
           | off # others \<Rightarrow> goto dir st (i + off)))"

fun play :: "nat \<Rightarrow> block list \<Rightarrow> resolver_state \<Rightarrow> resolve_error + nat list" where
  "play 0 dir st = (if at_end dir st then Inr [] else Inl StepLimitReached)"
| "play (Suc n) dir st =
     (if at_end dir st then Inr []
      else (case step dir st of
              Inl e \<Rightarrow> Inl e
            | Inr (out, st') \<Rightarrow>
                (case play n dir st' of
                   Inl e \<Rightarrow> Inl e
                 | Inr later \<Rightarrow> Inr (out @ later))))"

definition play_order :: "nat \<Rightarrow> block list \<Rightarrow> resolve_error + nat list" where
  "play_order max_steps dir = play max_steps dir initial_state"

section \<open>Properties of the byte reader\<close>

lemma ReadShort_drop:
  assumes "k + 2 \<le> length bs"
  shows "ReadShort (drop k bs) = Inr (le16 (bs ! k) (bs ! Suc k), drop (k + 2) bs)"
proof -
  have k: "k < length bs" and k1: "Suc k < length bs"
    using assms by simp_all
  have "drop k bs = bs ! k # drop (Suc k) bs"
    using k by (simp add: Cons_nth_drop_Suc)
  moreover have "drop (Suc k) bs = bs ! Suc k # drop (Suc (Suc k)) bs"
    using k1 by (simp add: Cons_nth_drop_Suc)
  ultimately show ?thesis
    by (simp add: ReadShort_def)
qed

section \<open>Properties of CallSequence.Read\<close>

lemma CallSequence_loop_valid:
  assumes "i \<le> unat (Count c)"
    and "2 + 2 * unat (Count c) \<le> length bs"
  shows "CallSequence_loop i (c, drop (2 + 2 * i) bs) =
         Inr (c\<lparr>Blocks := Blocks c @ map (\<lambda>j. le16 (bs ! (2 + 2 * j)) (bs ! (3 + 2 * j)))
                                        [i..<unat (Count c)]\<rparr>,
              drop (2 + 2 * unat (Count c)) bs)"
  using assms
proof (induction "unat (Count c) - i" arbitrary: i c)
  case 0
  then have "\<not> i < unat (Count c)" and "[i..<unat (Count c)] = []" by simp_all
  then show ?case
    using "0.prems"(1) by (subst CallSequence_loop.simps) simp
next
  case (Suc d)
  then have lt: "i < unat (Count c)" by simp
  let ?w = "le16 (bs ! (2 + 2 * i)) (bs ! (3 + 2 * i))"
  let ?c = "c\<lparr>Blocks := Blocks c @ [?w]\<rparr>"
  have rd: "ReadShort (drop (2 + 2 * i) bs) = Inr (?w, drop (2 + 2 * Suc i) bs)"
    using ReadShort_drop [of "2 + 2 * i" bs] lt Suc.prems(2) by (simp add: numeral_3_eq_3)
  have ih: "CallSequence_loop (Suc i) (?c, drop (2 + 2 * Suc i) bs) =
            Inr (?c\<lparr>Blocks := Blocks ?c @ map (\<lambda>j. le16 (bs ! (2 + 2 * j)) (bs ! (3 + 2 * j)))
                                        [Suc i..<unat (Count ?c)]\<rparr>,
                 drop (2 + 2 * unat (Count ?c)) bs)"
    using Suc.hyps(1) [of ?c "Suc i"] Suc.hyps(2) lt Suc.prems(2) by simp
  have "CallSequence_loop i (c, drop (2 + 2 * i) bs) =
        CallSequence_loop (Suc i) (?c, drop (2 + 2 * Suc i) bs)"
    using lt rd by (subst CallSequence_loop.simps) simp
  also note ih
  finally show ?case
    using lt by (simp add: upt_conv_Cons)
qed

lemma CallSequence_Read_valid:
  assumes "2 \<le> length bs"
    and "2 + 2 * unat (le16 (bs ! 0) (bs ! 1)) \<le> length bs"
  shows "CallSequence_Read (c, bs) =
         Inr (c\<lparr>Count := le16 (bs ! 0) (bs ! 1),
                Blocks := Blocks c @ offsets_of bs (unat (le16 (bs ! 0) (bs ! 1)))\<rparr>,
              drop (2 + 2 * unat (le16 (bs ! 0) (bs ! 1))) bs)"
proof -
  let ?n = "le16 (bs ! 0) (bs ! 1)"
  have rd: "ReadShort bs = Inr (?n, drop 2 bs)"
    using ReadShort_drop [of 0 bs] assms(1) by (simp add: numeral_2_eq_2)
  have "CallSequence_loop 0 (c\<lparr>Count := ?n\<rparr>, drop (2 + 2 * 0) bs) =
        Inr (c\<lparr>Count := ?n\<rparr>\<lparr>Blocks := Blocks (c\<lparr>Count := ?n\<rparr>) @
                 map (\<lambda>j. le16 (bs ! (2 + 2 * j)) (bs ! (3 + 2 * j)))
                   [0..<unat (Count (c\<lparr>Count := ?n\<rparr>))]\<rparr>,
             drop (2 + 2 * unat (Count (c\<lparr>Count := ?n\<rparr>))) bs)"
    by (rule CallSequence_loop_valid) (use assms in simp_all)
  then show ?thesis
    using rd by (simp add: CallSequence_Read_def offsets_of_def)
qed

text \<open>
  Claim C1. For every valid input encoding a CallSequence whose leading 16-bit count
  is \<open>N\<close> (that is, an input holding the two count bytes and at least \<open>2 N\<close> more),
  \<^verbatim>\<open>CallSequence.Read\<close> on a freshly declared block consumes exactly \<open>2 + 2 N\<close> bytes
  and leaves \<open>Blocks\<close> holding exactly the \<open>N\<close> offsets of the input, in input order.
\<close>

theorem CallSequence_Read_consumes:
  assumes "2 \<le> length bs"
    and "N = le16 (bs ! 0) (bs ! 1)"
    and "2 + 2 * unat N \<le> length bs"
  shows "\<exists>c'. CallSequence_Read (CallSequence_zero, bs) = Inr (c', drop (2 + 2 * unat N) bs)
           \<and> Count c' = N
           \<and> length (Blocks c') = unat N
           \<and> (\<forall>i < unat N. Blocks c' ! i = le16 (bs ! (2 + 2 * i)) (bs ! (3 + 2 * i)))"
  using CallSequence_Read_valid [of bs CallSequence_zero] assms
  by (simp add: CallSequence_zero_def offsets_of_def)

theorem CallSequence_Read_consumes_witness:
  "\<exists>c'. CallSequence_Read (CallSequence_zero, [2, 0, 5, 0, 0xFE, 0xFF, 0x26]) = Inr (c', [0x26])
     \<and> Count c' = 2 \<and> Blocks c' = [5, 0xFFFE]"
proof -
  let ?bs = "[2, 0, 5, 0, 0xFE, 0xFF, 0x26] :: byte list"
  have n: "le16 2 0 = 2"
    by (simp add: le16_def)
  have "\<exists>c'. CallSequence_Read (CallSequence_zero, ?bs) = Inr (c', drop (2 + 2 * unat (2 :: uint16)) ?bs)
           \<and> Count c' = 2
           \<and> length (Blocks c') = unat (2 :: uint16)
           \<and> (\<forall>i < unat (2 :: uint16). Blocks c' ! i = le16 (?bs ! (2 + 2 * i)) (?bs ! (3 + 2 * i)))"
    by (rule CallSequence_Read_consumes) (simp_all add: n)
  then obtain c' where r: "CallSequence_Read (CallSequence_zero, ?bs) = Inr (c', [0x26])"
    and c: "Count c' = 2" and l: "length (Blocks c') = 2"
    and b: "\<forall>i < 2. Blocks c' ! i = le16 (?bs ! (2 + 2 * i)) (?bs ! (3 + 2 * i))"
    by auto
  have b0: "Blocks c' ! 0 = 5"
    using b [rule_format, of 0] by (simp add: le16_def)
  have b1: "Blocks c' ! 1 = 0xFFFE"
    using b [rule_format, of 1] by (simp add: le16_def)
  have "Blocks c' = [5, 0xFFFE]"
    using l b0 b1 by (auto simp: list_eq_iff_nth_eq less_Suc_eq numeral_2_eq_2)
  with r c show ?thesis by blast
qed

text \<open>
  Claim C2. The claim says every decoded offset is a signed 16-bit integer, negative
  when the input word has its high bit set. The field is \<^verbatim>\<open>[]uint16\<close>: the input
  \<open>01 00 FF FF\<close> (one offset, the word \<open>0xFFFF\<close>) leaves \<open>Blocks = [0xFFFF]\<close>, whose
  value at the field's type is 65535, while the signed reading of the same word is
  \<open>-1\<close>.
\<close>

theorem CallSequence_Read_offset_unsigned:
  "CallSequence_Read (CallSequence_zero, [1, 0, 0xFF, 0xFF]) =
     Inr (\<lparr>Count = 1, Blocks = [0xFFFF]\<rparr>, [])
   \<and> uint (0xFFFF :: uint16) = 65535
   \<and> sint (0xFFFF :: uint16) = - 1"
proof -
  let ?bs = "[1, 0, 0xFF, 0xFF] :: byte list"
  have n: "le16 1 0 = 1" and w: "le16 0xFF 0xFF = 0xFFFF"
    by (simp_all add: le16_def)
  have "CallSequence_Read (CallSequence_zero, ?bs) =
        Inr (CallSequence_zero\<lparr>Count := le16 (?bs ! 0) (?bs ! 1),
               Blocks := Blocks CallSequence_zero @ offsets_of ?bs (unat (le16 (?bs ! 0) (?bs ! 1)))\<rparr>,
             drop (2 + 2 * unat (le16 (?bs ! 0) (?bs ! 1))) ?bs)"
    by (rule CallSequence_Read_valid) (simp_all add: n)
  then show ?thesis
    by (simp add: n w CallSequence_zero_def offsets_of_def)
qed

section \<open>Properties of CustomInfo.Read\<close>

lemma ReadLong_drop:
  assumes "k + 4 \<le> length bs"
  shows "ReadLong (drop k bs) =
         Inr (le32 (bs ! k) (bs ! (k + 1)) (bs ! (k + 2)) (bs ! (k + 3)), drop (k + 4) bs)"
proof -
  have "drop k bs = bs ! k # drop (Suc k) bs"
    using assms by (simp add: Cons_nth_drop_Suc)
  moreover have "drop (Suc k) bs = bs ! (k + 1) # drop (Suc (Suc k)) bs"
    using assms by (simp add: Cons_nth_drop_Suc)
  moreover have "drop (Suc (Suc k)) bs = bs ! (k + 2) # drop (Suc (Suc (Suc k))) bs"
    using assms by (simp add: Cons_nth_drop_Suc)
  moreover have "drop (Suc (Suc (Suc k))) bs = bs ! (k + 3) # drop (k + 4) bs"
    using assms Cons_nth_drop_Suc [of "k + 3" bs] by (simp add: numeral_3_eq_3 eval_nat_numeral)
  ultimately show ?thesis
    by (simp add: ReadLong_def)
qed

lemma set_each_in_range:
  "i + length bs \<le> length arr \<Longrightarrow>
   set_each i bs arr = Inr (take i arr @ bs @ drop (i + length bs) arr)"
proof (induction bs arbitrary: i arr)
  case Nil
  then show ?case by simp
next
  case (Cons b bs)
  then have i: "i < length arr" by simp
  have "set_each (Suc i) bs (arr[i := b]) =
        Inr (take (Suc i) (arr[i := b]) @ bs @ drop (Suc i + length bs) (arr[i := b]))"
    using Cons.prems by (intro Cons.IH) simp
  moreover have "take (Suc i) (arr[i := b]) = take i arr @ [b]"
    using i by (simp add: take_Suc_conv_app_nth)
  ultimately show ?case
    using i by simp
qed

lemma set_each_whole:
  "length bs = length arr \<Longrightarrow> set_each 0 bs arr = Inr bs"
  using set_each_in_range [of 0 bs arr] by simp

lemma append_each_append: "append_each bs acc = acc @ bs"
  by (induction bs arbitrary: acc) simp_all

lemma CustomInfo_Read_valid:
  assumes "length (Identification c) = 10"
    and "14 \<le> length bs"
    and "L = le32 (bs ! 10) (bs ! 11) (bs ! 12) (bs ! 13)"
    and "14 + unat L \<le> length bs"
  shows "CustomInfo_Read (c, bs) =
         Inr (c\<lparr>Identification := take 10 bs, Length := L,
                Info := Info c @ take (unat L) (drop 14 bs)\<rparr>,
              drop (14 + unat L) bs)"
proof -
  have r1: "ReadBytes 10 bs = Inr (take 10 bs, drop 10 bs)"
    using assms(2) by (simp add: ReadBytes_def)
  have r2: "set_each 0 (take 10 bs) (Identification c) = Inr (take 10 bs)"
    using assms(1,2) by (intro set_each_whole) simp
  have r3: "ReadLong (drop 10 bs) = Inr (L, drop 14 bs)"
    using ReadLong_drop [of 10 bs] assms(2,3) by simp
  have r4: "ReadBytes (unat L) (drop 14 bs) =
            Inr (take (unat L) (drop 14 bs), drop (14 + unat L) bs)"
    using assms(4) by (simp add: ReadBytes_def add.commute)
  show ?thesis
    by (simp add: CustomInfo_Read_def r1 r2 r3 r4 append_each_append)
qed

text \<open>
  Claim C7. For every input encoding a CustomInfo block with declared length \<open>L\<close>,
  \<^verbatim>\<open>CustomInfo.Read\<close> on a zero-valued receiver reads, in this order, the 10-byte
  identification, the 32-bit little-endian length \<open>L\<close> and exactly \<open>L\<close> info bytes: it
  consumes \<open>14 + L\<close> bytes, so the cursor is at the byte after the block, and
  \<open>len(Info) = L\<close>.
\<close>

theorem CustomInfo_Read_consumes:
  assumes "14 \<le> length bs"
    and "L = le32 (bs ! 10) (bs ! 11) (bs ! 12) (bs ! 13)"
    and "14 + unat L \<le> length bs"
  shows "CustomInfo_Read (CustomInfo_zero, bs) =
           Inr (\<lparr>Identification = take 10 bs, Length = L,
                 Info = take (unat L) (drop 14 bs)\<rparr>,
                drop (14 + unat L) bs)
         \<and> length (take (unat L) (drop 14 bs)) = unat L"
  using CustomInfo_Read_valid [of CustomInfo_zero bs L] assms
  by (simp add: CustomInfo_zero_def)

theorem CustomInfo_Read_consumes_witness:
  "CustomInfo_Read (CustomInfo_zero,
       [1, 2, 3, 4, 5, 6, 7, 8, 9, 10, 3, 0, 0, 0, 0xAA, 0xBB, 0xCC, 0x5A]) =
     Inr (\<lparr>Identification = [1, 2, 3, 4, 5, 6, 7, 8, 9, 10], Length = 3,
           Info = [0xAA, 0xBB, 0xCC]\<rparr>, [0x5A])"
proof -
  let ?bs = "[1, 2, 3, 4, 5, 6, 7, 8, 9, 10, 3, 0, 0, 0, 0xAA, 0xBB, 0xCC, 0x5A] :: byte list"
  have l: "le32 3 0 0 0 = 3"
    by (simp add: le32_def)
  have "CustomInfo_Read (CustomInfo_zero, ?bs) =
           Inr (\<lparr>Identification = take 10 ?bs, Length = 3,
                 Info = take (unat (3 :: uint32)) (drop 14 ?bs)\<rparr>,
                drop (14 + unat (3 :: uint32)) ?bs)
         \<and> length (take (unat (3 :: uint32)) (drop 14 ?bs)) = unat (3 :: uint32)"
    by (rule CustomInfo_Read_consumes) (simp_all add: l)
  then show ?thesis by simp
qed

text \<open>
  Claim C10. \<^verbatim>\<open>CustomInfo.Read\<close> appends to \<open>Info\<close>: for every receiver whose \<open>Info\<close>
  holds \<open>p\<close> bytes and every input with declared length \<open>L\<close>, after the call \<open>Info\<close>
  holds \<open>p + L\<close> bytes and starts with the original \<open>p\<close> bytes.
\<close>

theorem CustomInfo_Read_appends:
  assumes "length (Identification c) = 10"
    and "14 \<le> length bs"
    and "L = le32 (bs ! 10) (bs ! 11) (bs ! 12) (bs ! 13)"
    and "14 + unat L \<le> length bs"
  shows "\<exists>c'. CustomInfo_Read (c, bs) = Inr (c', drop (14 + unat L) bs)
           \<and> Info c' = Info c @ take (unat L) (drop 14 bs)
           \<and> length (Info c') = length (Info c) + unat L
           \<and> take (length (Info c)) (Info c') = Info c"
  using CustomInfo_Read_valid [OF assms] assms(4)
  by simp

theorem CustomInfo_Read_appends_witness:
  "\<exists>c'. CustomInfo_Read (CustomInfo_zero\<lparr>Info := [0x11, 0x22]\<rparr>,
            [1, 2, 3, 4, 5, 6, 7, 8, 9, 10, 3, 0, 0, 0, 0xAA, 0xBB, 0xCC, 0x5A]) =
          Inr (c', [0x5A])
      \<and> Info c' = [0x11, 0x22, 0xAA, 0xBB, 0xCC]"
proof -
  let ?bs = "[1, 2, 3, 4, 5, 6, 7, 8, 9, 10, 3, 0, 0, 0, 0xAA, 0xBB, 0xCC, 0x5A] :: byte list"
  let ?c = "CustomInfo_zero\<lparr>Info := [0x11, 0x22]\<rparr>"
  have l: "le32 3 0 0 0 = 3"
    by (simp add: le32_def)
  have "\<exists>c'. CustomInfo_Read (?c, ?bs) = Inr (c', drop (14 + unat (3 :: uint32)) ?bs)
           \<and> Info c' = Info ?c @ take (unat (3 :: uint32)) (drop 14 ?bs)
           \<and> length (Info c') = length (Info ?c) + unat (3 :: uint32)
           \<and> take (length (Info ?c)) (Info c') = Info ?c"
    by (rule CustomInfo_Read_appends) (simp_all add: l CustomInfo_zero_def)
  then obtain c' where "CustomInfo_Read (?c, ?bs) = Inr (c', [0x5A])"
    and "Info c' = [0x11, 0x22, 0xAA, 0xBB, 0xCC]"
    by auto
  then show ?thesis by blast
qed

section \<open>Properties of TrackInformation.Read\<close>

lemma ReadByte_drop:
  "n < length bs \<Longrightarrow> ReadByte (drop n bs) = Inr (bs ! n, drop (Suc n) bs)"
  by (simp add: ReadByte_def Cons_nth_drop_Suc [symmetric])

lemma ReadNextBytes_drop:
  "k + n \<le> length bs \<Longrightarrow>
   ReadNextBytes n (drop k bs) = Inr (take n (drop k bs), drop (k + n) bs)"
  by (simp add: ReadNextBytes_def add.commute)

lemma copy_bytes_same_length:
  "length dst = length src \<Longrightarrow> copy_bytes dst src = src"
  by (simp add: copy_bytes_def)

lemma readHeader_valid:
  assumes "24 \<le> length bs"
    and "length (Identifier t) = 13"
    and "length (Unused1 t) = 3"
    and "length (Unused2 t) = 2"
  shows "readHeader (t, bs) =
         ((t\<lparr>Identifier := take 13 bs, Unused1 := take 3 (drop 13 bs),
              Track := bs ! 16, Side := bs ! 17, Unused2 := take 2 (drop 18 bs),
              SectorSize := bs ! 20, SectorsCount := bs ! 21,
              GapLength := bs ! 22, FillerByte := bs ! 23\<rparr>,
           drop 24 bs), None)"
proof -
  have r1: "ReadNextBytes 13 bs = Inr (take 13 bs, drop 13 bs)"
    using assms(1) by (simp add: ReadNextBytes_def)
  have r2: "ReadNextBytes 3 (drop 13 bs) = Inr (take 3 (drop 13 bs), drop 16 bs)"
    using ReadNextBytes_drop [of 13 3 bs] assms(1) by simp
  have r3: "ReadByte (drop 16 bs) = Inr (bs ! 16, drop 17 bs)"
    using ReadByte_drop [of 16 bs] assms(1) by simp
  have r4: "ReadByte (drop 17 bs) = Inr (bs ! 17, drop 18 bs)"
    using ReadByte_drop [of 17 bs] assms(1) by simp
  have r5: "ReadNextBytes 2 (drop 18 bs) = Inr (take 2 (drop 18 bs), drop 20 bs)"
    using ReadNextBytes_drop [of 18 2 bs] assms(1) by simp
  have r6: "ReadByte (drop 20 bs) = Inr (bs ! 20, drop 21 bs)"
    using ReadByte_drop [of 20 bs] assms(1) by simp
  have r7: "ReadByte (drop 21 bs) = Inr (bs ! 21, drop 22 bs)"
    using ReadByte_drop [of 21 bs] assms(1) by simp
  have r8: "ReadByte (drop 22 bs) = Inr (bs ! 22, drop 23 bs)"
    using ReadByte_drop [of 22 bs] assms(1) by simp
  have r9: "ReadByte (drop 23 bs) = Inr (bs ! 23, drop 24 bs)"
    using ReadByte_drop [of 23 bs] assms(1) by simp
  have c1: "copy_bytes (Identifier t) (take 13 bs) = take 13 bs"
    using assms(1,2) by (intro copy_bytes_same_length) simp
  have c2: "copy_bytes (Unused1 t) (take 3 (drop 13 bs)) = take 3 (drop 13 bs)"
    using assms(1,3) by (intro copy_bytes_same_length) simp
  have c3: "copy_bytes (Unused2 t) (take 2 (drop 18 bs)) = take 2 (drop 18 bs)"
    using assms(1,4) by (intro copy_bytes_same_length) simp
  show ?thesis
    by (simp add: readHeader_def r1 r2 r3 r4 r5 r6 r7 r8 r9 c1 c2 c3)
qed

lemma sector_loop_done:
  "\<not> i < unat (SectorsCount t) \<Longrightarrow> sector_loop sread i (t, r) = ((t, r), None)"
  by (subst sector_loop.simps) simp

lemma sector_loop_fail:
  "i < unat (SectorsCount t) \<Longrightarrow> sread r = (s, r', Some e) \<Longrightarrow>
   sector_loop sread i (t, r) = ((t, r'), Some (Wrapf e ''error reading sector #%d'' (i + 1)))"
  by (subst sector_loop.simps) simp

lemma sector_loop_step:
  "i < unat (SectorsCount t) \<Longrightarrow> sread r = (s, r', None) \<Longrightarrow>
   sector_loop sread i (t, r) = sector_loop sread (Suc i) (t\<lparr>Sectors := Sectors t @ [s]\<rparr>, r')"
  by (subst sector_loop.simps) simp

lemma descriptors_read_length:
  "descriptors_read sread k r = Some (ss, r') \<Longrightarrow> length ss = k"
  by (induction k arbitrary: r ss) (auto split: prod.splits option.splits)

lemma sector_loop_descriptors:
  "descriptors_read sread k r = Some (ss, r') \<Longrightarrow> i + k \<le> unat (SectorsCount t) \<Longrightarrow>
   sector_loop sread i (t, r) = sector_loop sread (i + k) (t\<lparr>Sectors := Sectors t @ ss\<rparr>, r')"
proof (induction k arbitrary: i t r ss)
  case 0
  then show ?case by simp
next
  case (Suc k)
  from Suc.prems(1) obtain s r1 ss1 where
    s: "sread r = (s, r1, None)" and
    rest: "descriptors_read sread k r1 = Some (ss1, r')" and
    ss: "ss = s # ss1"
    by (auto split: prod.splits option.splits)
  have "sector_loop sread i (t, r) =
        sector_loop sread (Suc i) (t\<lparr>Sectors := Sectors t @ [s]\<rparr>, r1)"
    using Suc.prems(2) s by (intro sector_loop_step) simp_all
  also have "\<dots> = sector_loop sread (Suc i + k)
                     (t\<lparr>Sectors := Sectors t @ [s]\<rparr>\<lparr>Sectors := Sectors (t\<lparr>Sectors := Sectors t @ [s]\<rparr>) @ ss1\<rparr>, r')"
    using Suc.prems(2) by (intro Suc.IH [OF rest]) simp
  finally show ?case
    by (simp add: ss)
qed

lemma sector_loop_success:
  "sector_loop sread i (t, r) = ((t', r'), None) \<Longrightarrow>
   \<exists>ss. descriptors_read sread (unat (SectorsCount t) - i) r = Some (ss, r')
        \<and> t' = t\<lparr>Sectors := Sectors t @ ss\<rparr>"
proof (induction "unat (SectorsCount t) - i" arbitrary: i t r)
  case 0
  then have "\<not> i < unat (SectorsCount t)" by simp
  with "0.prems" "0.hyps" show ?case
    by (simp add: sector_loop_done)
next
  case (Suc d)
  then have lt: "i < unat (SectorsCount t)" by simp
  obtain s r1 e where s: "sread r = (s, r1, e)"
    by (cases "sread r") auto
  show ?case
  proof (cases e)
    case (Some err)
    with Suc.prems lt s show ?thesis
      by (simp add: sector_loop_fail)
  next
    case None
    let ?t = "t\<lparr>Sectors := Sectors t @ [s]\<rparr>"
    have run: "sector_loop sread (Suc i) (?t, r1) = ((t', r'), None)"
      using Suc.prems lt s None by (simp add: sector_loop_step)
    have d: "d = unat (SectorsCount ?t) - Suc i"
      using Suc.hyps(2) by simp
    obtain ss where
      dr: "descriptors_read sread (unat (SectorsCount ?t) - Suc i) r1 = Some (ss, r')" and
      t': "t' = ?t\<lparr>Sectors := Sectors ?t @ ss\<rparr>"
      using Suc.hyps(1) [OF d run] by auto
    have "unat (SectorsCount t) - i = Suc (unat (SectorsCount t) - Suc i)"
      using lt by simp
    then have "descriptors_read sread (unat (SectorsCount t) - i) r = Some (s # ss, r')"
      using s None dr by simp
    then show ?thesis
      using t' by auto
  qed
qed

lemma sector_loop_shape:
  "sector_loop sread i (t, r) = ((t', r'), e) \<Longrightarrow> \<exists>ss. t' = t\<lparr>Sectors := Sectors t @ ss\<rparr>"
proof (induction "unat (SectorsCount t) - i" arbitrary: i t r)
  case 0
  then have "\<not> i < unat (SectorsCount t)" by simp
  with "0.prems" have "t' = t" by (simp add: sector_loop_done)
  then have "t' = t\<lparr>Sectors := Sectors t @ []\<rparr>" by simp
  then show ?case by blast
next
  case (Suc d)
  then have lt: "i < unat (SectorsCount t)" by simp
  obtain s r1 e1 where s: "sread r = (s, r1, e1)"
    by (cases "sread r") auto
  show ?case
  proof (cases e1)
    case (Some err)
    with Suc.prems lt s have "t' = t" by (simp add: sector_loop_fail)
    then have "t' = t\<lparr>Sectors := Sectors t @ []\<rparr>" by simp
    then show ?thesis by blast
  next
    case None
    let ?t = "t\<lparr>Sectors := Sectors t @ [s]\<rparr>"
    have run: "sector_loop sread (Suc i) (?t, r1) = ((t', r'), e)"
      using Suc.prems lt s None by (simp add: sector_loop_step)
    have d: "d = unat (SectorsCount ?t) - Suc i"
      using Suc.hyps(2) by simp
    obtain ss where "t' = ?t\<lparr>Sectors := Sectors ?t @ ss\<rparr>"
      using Suc.hyps(1) [OF d run] by auto
    then have "t' = t\<lparr>Sectors := Sectors t @ (s # ss)\<rparr>" by simp
    then show ?thesis by blast
  qed
qed

lemma payloads_read_length:
  "payloads_read dread ss r = Some (ds, r') \<Longrightarrow> length ds = length ss"
  by (induction ss arbitrary: r ds) (auto split: prod.splits option.splits)

lemma data_loop_payloads:
  "payloads_read dread ss r = Some (ds, r') \<Longrightarrow>
   data_loop dread i (ss @ rest) (t, r) =
   data_loop dread (i + length ss) rest (t\<lparr>Data := Data t @ ds\<rparr>, r')"
proof (induction ss arbitrary: i t r ds)
  case Nil
  then show ?case by simp
next
  case (Cons s ss)
  from Cons.prems obtain d r1 ds1 where
    d: "dread s r = (d, r1, None)" and
    rest: "payloads_read dread ss r1 = Some (ds1, r')" and
    ds: "ds = d # ds1"
    by (auto split: prod.splits option.splits)
  show ?case
    using Cons.IH [OF rest, of "Suc i" "t\<lparr>Data := Data t @ [d]\<rparr>"] d ds by simp
qed

lemma data_loop_fail:
  "dread s r = (d, r', Some e) \<Longrightarrow>
   data_loop dread i (s # ss) (t, r) = ((t, r'), Some (Wrapf e ''error reading sector #%d'' i))"
  by simp

lemma data_loop_success:
  "data_loop dread i ss (t, r) = ((t', r'), None) \<Longrightarrow>
   \<exists>ds. payloads_read dread ss r = Some (ds, r') \<and> t' = t\<lparr>Data := Data t @ ds\<rparr>"
proof (induction ss arbitrary: i t r)
  case Nil
  then show ?case by simp
next
  case (Cons s ss)
  obtain d r1 e where d: "dread s r = (d, r1, e)"
    by (cases "dread s r") auto
  show ?case
  proof (cases e)
    case (Some err)
    with Cons.prems d show ?thesis by simp
  next
    case None
    let ?t = "t\<lparr>Data := Data t @ [d]\<rparr>"
    have "data_loop dread (Suc i) ss (?t, r1) = ((t', r'), None)"
      using Cons.prems d None by simp
    then obtain ds where "payloads_read dread ss r1 = Some (ds, r')"
      and "t' = ?t\<lparr>Data := Data ?t @ ds\<rparr>"
      using Cons.IH by blast
    then show ?thesis
      using d None by simp
  qed
qed

lemma data_loop_shape:
  "data_loop dread i ss (t, r) = ((t', r'), e) \<Longrightarrow> \<exists>ds. t' = t\<lparr>Data := Data t @ ds\<rparr>"
proof (induction ss arbitrary: i t r)
  case Nil
  then have "t' = t\<lparr>Data := Data t @ []\<rparr>" by simp
  then show ?case by blast
next
  case (Cons s ss)
  obtain d r1 e1 where d: "dread s r = (d, r1, e1)"
    by (cases "dread s r") auto
  show ?case
  proof (cases e1)
    case (Some err)
    with Cons.prems d have "t' = t\<lparr>Data := Data t @ []\<rparr>" by simp
    then show ?thesis by blast
  next
    case None
    let ?t = "t\<lparr>Data := Data t @ [d]\<rparr>"
    have "data_loop dread (Suc i) ss (?t, r1) = ((t', r'), e)"
      using Cons.prems d None by simp
    then obtain ds where "t' = ?t\<lparr>Data := Data ?t @ ds\<rparr>"
      using Cons.IH by blast
    then have "t' = t\<lparr>Data := Data t @ (d # ds)\<rparr>" by simp
    then show ?thesis by blast
  qed
qed

lemma payloads_read_nth:
  "payloads_read dread ss r = Some (ds, r') \<Longrightarrow> i < length ss \<Longrightarrow>
   \<exists>ri ri'. payloads_read dread (take i ss) r = Some (take i ds, ri)
          \<and> dread (ss ! i) ri = (ds ! i, ri', None)
          \<and> payloads_read dread (take (Suc i) ss) r = Some (take (Suc i) ds, ri')"
proof (induction ss arbitrary: r ds i)
  case Nil
  then show ?case by simp
next
  case (Cons s ss)
  from Cons.prems(1) obtain d r1 ds1 where
    d: "dread s r = (d, r1, None)" and
    rest: "payloads_read dread ss r1 = Some (ds1, r')" and
    ds: "ds = d # ds1"
    by (auto split: prod.splits option.splits)
  show ?case
  proof (cases i)
    case 0
    then show ?thesis using d ds by simp
  next
    case (Suc j)
    then have "j < length ss" using Cons.prems(2) by simp
    from Cons.IH [OF rest this] obtain ri ri' where
      "payloads_read dread (take j ss) r1 = Some (take j ds1, ri)"
      "dread (ss ! j) ri = (ds1 ! j, ri', None)"
      "payloads_read dread (take (Suc j) ss) r1 = Some (take (Suc j) ds1, ri')"
      by blast
    then show ?thesis
      using d ds Suc by simp
  qed
qed


lemma readHeader_shape:
  "readHeader (t, r) = ((t1, r1), e) \<Longrightarrow> Sectors t1 = Sectors t \<and> Data t1 = Data t"
  by (auto simp: readHeader_def Let_def split: sum.splits prod.splits)

lemma setBufferToDataAddress_shape:
  "setBufferToDataAddress dsz (t, r) = ((t', r'), e) \<Longrightarrow> t' = t"
  by (auto simp: setBufferToDataAddress_def Let_def split: prod.splits option.splits)

lemma setBufferToDataAddress_negative:
  "sectorDataStartAddress < trackInformationBlockSize + int (unat (SectorsCount t)) * dsz \<Longrightarrow>
   setBufferToDataAddress dsz (t, r) =
     ((t, r), Some (Wrap ErrNegativeCount ''error moving reader position to 0x0100''))"
  by (simp add: setBufferToDataAddress_def Let_def Discard_def)

lemma setBufferToDataAddress_zero:
  "trackInformationBlockSize + int (unat (SectorsCount t)) * dsz = sectorDataStartAddress \<Longrightarrow>
   setBufferToDataAddress dsz (t, r) = ((t, r), None)"
  by (simp add: setBufferToDataAddress_def Let_def Discard_def)

lemma Read_phases:
  "TrackInformation_Read sread dread dsz s = (s', None) \<Longrightarrow>
   \<exists>s1 s2 s3. readHeader s = (s1, None)
     \<and> readSectorInformationBlocks sread s1 = (s2, None)
     \<and> setBufferToDataAddress dsz s2 = (s3, None)
     \<and> readSectorData dread s3 = (s', None)"
  by (auto simp: TrackInformation_Read_def split: prod.splits option.splits)

lemma Read_descriptors_fail:
  "readHeader s = (s1, None) \<Longrightarrow> readSectorInformationBlocks sread s1 = (s2, Some e) \<Longrightarrow>
   TrackInformation_Read sread dread dsz s = (s2, Some e)"
  by (simp add: TrackInformation_Read_def)

lemma Read_discard_fail:
  "readHeader s = (s1, None) \<Longrightarrow> readSectorInformationBlocks sread s1 = (s2, None) \<Longrightarrow>
   setBufferToDataAddress dsz s2 = (s3, Some e) \<Longrightarrow>
   TrackInformation_Read sread dread dsz s = (s3, Some e)"
  by (simp add: TrackInformation_Read_def)

lemma Read_data:
  "readHeader s = (s1, None) \<Longrightarrow> readSectorInformationBlocks sread s1 = (s2, None) \<Longrightarrow>
   setBufferToDataAddress dsz s2 = (s3, None) \<Longrightarrow>
   TrackInformation_Read sread dread dsz s = readSectorData dread s3"
  by (cases "readSectorData dread s3") (auto simp: TrackInformation_Read_def split: option.splits)

lemma Read_success:
  assumes "TrackInformation_Read sread dread dsz (t, r) = ((t', r'), None)"
  shows "\<exists>t1 r1 r2 ss ds.
           readHeader (t, r) = ((t1, r1), None)
         \<and> descriptors_read sread (unat (SectorsCount t1)) r1 = Some (ss, r2)
         \<and> setBufferToDataAddress dsz (t1\<lparr>Sectors := Sectors t @ ss\<rparr>, r2) =
             ((t1\<lparr>Sectors := Sectors t @ ss\<rparr>, reader_at_data sread dsz (t, r)), None)
         \<and> payloads_read dread (Sectors t @ ss) (reader_at_data sread dsz (t, r)) = Some (ds, r')
         \<and> t' = t1\<lparr>Sectors := Sectors t @ ss, Data := Data t @ ds\<rparr>"
proof -
  from Read_phases [OF assms] obtain t1 r1 t2 r2 t3 r3 where
    h: "readHeader (t, r) = ((t1, r1), None)" and
    s: "readSectorInformationBlocks sread (t1, r1) = ((t2, r2), None)" and
    b: "setBufferToDataAddress dsz (t2, r2) = ((t3, r3), None)" and
    d: "readSectorData dread (t3, r3) = ((t', r'), None)"
    by force
  from readHeader_shape [OF h] have st: "Sectors t1 = Sectors t" and dt: "Data t1 = Data t"
    by simp_all
  from s obtain ss where
    ss: "descriptors_read sread (unat (SectorsCount t1)) r1 = Some (ss, r2)" and
    t2: "t2 = t1\<lparr>Sectors := Sectors t1 @ ss\<rparr>"
    using sector_loop_success [of sread 0 t1 r1 t2 r2]
    by (auto simp: readSectorInformationBlocks_def)
  from setBufferToDataAddress_shape [OF b] have t3: "t3 = t2" .
  have r3: "reader_at_data sread dsz (t, r) = r3"
    by (simp add: reader_at_data_def h s b)
  from d obtain ds where
    ds: "payloads_read dread (Sectors t3) r3 = Some (ds, r')" and
    t': "t' = t3\<lparr>Data := Data t3 @ ds\<rparr>"
    using data_loop_success [of dread 0 "Sectors t3" t3 r3 t' r']
    by (auto simp: readSectorData_def)
  show ?thesis
    using h ss b ds t' t2 t3 r3 st dt by simp
qed


lemma Read_shape:
  assumes "TrackInformation_Read sread dread dsz (t, r) = ((t', r'), e)"
    and "readHeader (t, r) = ((t1, r1), None)"
  shows "\<exists>ss ds. t' = t1\<lparr>Sectors := Sectors t1 @ ss, Data := Data t1 @ ds\<rparr>"
proof -
  obtain t2 r2 e2 where s: "readSectorInformationBlocks sread (t1, r1) = ((t2, r2), e2)"
    by (metis surj_pair)
  then obtain ss where t2: "t2 = t1\<lparr>Sectors := Sectors t1 @ ss\<rparr>"
    using sector_loop_shape [of sread 0 t1 r1 t2 r2 e2]
    by (auto simp: readSectorInformationBlocks_def)
  have nil: "t2 = t2\<lparr>Data := Data t2 @ []\<rparr>" by simp
  show ?thesis
  proof (cases e2)
    case (Some err)
    then have "t' = t2"
      using Read_descriptors_fail [OF assms(2), of sread "(t2, r2)" err dread dsz] s assms(1)
      by simp
    then have "t' = t1\<lparr>Sectors := Sectors t1 @ ss, Data := Data t1 @ []\<rparr>"
      using t2 by simp
    then show ?thesis by blast
  next
    case None
    obtain t3 r3 e3 where b: "setBufferToDataAddress dsz (t2, r2) = ((t3, r3), e3)"
      by (metis surj_pair)
    from setBufferToDataAddress_shape [OF b] have t3: "t3 = t2" .
    show ?thesis
    proof (cases e3)
      case (Some err)
      then have "t' = t2"
        using Read_discard_fail [OF assms(2), of sread "(t2, r2)" dsz "(t3, r3)" err dread]
          s None b t3 assms(1)
        by simp
      then have "t' = t1\<lparr>Sectors := Sectors t1 @ ss, Data := Data t1 @ []\<rparr>"
        using t2 by simp
      then show ?thesis by blast
    next
      case n3: None
      have "TrackInformation_Read sread dread dsz (t, r) = readSectorData dread (t3, r3)"
        using Read_data [OF assms(2), of sread "(t2, r2)" dsz "(t3, r3)" dread] s None b n3
        by simp
      then have "data_loop dread 0 (Sectors t3) (t3, r3) = ((t', r'), e)"
        using assms(1) by (simp add: readSectorData_def)
      then obtain ds where "t' = t3\<lparr>Data := Data t3 @ ds\<rparr>"
        using data_loop_shape by blast
      then have "t' = t1\<lparr>Sectors := Sectors t1 @ ss, Data := Data t1 @ ds\<rparr>"
        using t2 t3 by simp
      then show ?thesis by blast
    qed
  qed
qed

subsection \<open>The track decoder on descriptors and payloads of fixed size\<close>

lemma SectorInformation_Read_ok:
  "n \<le> length r \<Longrightarrow> SectorInformation_Read n r = (take n r, drop n r, None)"
  by (simp add: SectorInformation_Read_def ReadNextBytes_def)

lemma SectorInformation_Read_short:
  "length r < n \<Longrightarrow> SectorInformation_Read n r = ([], r, Some TruncatedInput)"
  by (simp add: SectorInformation_Read_def ReadNextBytes_def)

lemma SectorInformation_DataRead_ok:
  "m \<le> length r \<Longrightarrow> SectorInformation_DataRead m s r = (take m r, drop m r, None)"
  by (simp add: SectorInformation_DataRead_def ReadNextBytes_def)

lemma SectorInformation_DataRead_short:
  "length r < m \<Longrightarrow> SectorInformation_DataRead m s r = ([], r, Some TruncatedInput)"
  by (simp add: SectorInformation_DataRead_def ReadNextBytes_def)

lemma descriptors_read_SectorInformation_Read:
  "k * n \<le> length r \<Longrightarrow>
   descriptors_read (SectorInformation_Read n) k r =
     Some (map (\<lambda>i. take n (drop (i * n) r)) [0..<k], drop (k * n) r)"
proof (induction k arbitrary: r)
  case 0
  then show ?case by simp
next
  case (Suc k)
  then have n: "n \<le> length r" and rest: "k * n \<le> length (drop n r)"
    by simp_all
  have "map (\<lambda>i. take n (drop (i * n) r)) [0..<Suc k] =
        take n r # map (\<lambda>i. take n (drop (i * n) (drop n r))) [0..<k]"
    by (simp add: map_upt_Suc add.commute del: upt_Suc)
  moreover have "drop (Suc k * n) r = drop (k * n) (drop n r)"
    by (simp add: add.commute)
  ultimately show ?case
    using Suc.IH [OF rest] SectorInformation_Read_ok [OF n]
    by (simp del: upt_Suc)
qed

lemma payloads_read_SectorInformation_DataRead:
  "length ss * m \<le> length r \<Longrightarrow>
   payloads_read (SectorInformation_DataRead m) ss r =
     Some (map (\<lambda>i. take m (drop (i * m) r)) [0..<length ss], drop (length ss * m) r)"
proof (induction ss arbitrary: r)
  case Nil
  then show ?case by simp
next
  case (Cons s ss)
  then have m: "m \<le> length r" and rest: "length ss * m \<le> length (drop m r)"
    by simp_all
  have "map (\<lambda>i. take m (drop (i * m) r)) [0..<Suc (length ss)] =
        take m r # map (\<lambda>i. take m (drop (i * m) (drop m r))) [0..<length ss]"
    by (simp add: map_upt_Suc add.commute del: upt_Suc)
  moreover have "drop (Suc (length ss) * m) r = drop (length ss * m) (drop m r)"
    by (simp add: add.commute)
  ultimately show ?case
    using Cons.IH [OF rest] SectorInformation_DataRead_ok [OF m, of s]
    by (simp del: upt_Suc)
qed

lemma readSectorInformationBlocks_SectorInformation_Read:
  assumes "unat (SectorsCount t) * n \<le> length r"
  shows "readSectorInformationBlocks (SectorInformation_Read n) (t, r) =
         ((t\<lparr>Sectors := Sectors t @ map (\<lambda>i. take n (drop (i * n) r)) [0..<unat (SectorsCount t)]\<rparr>,
           drop (unat (SectorsCount t) * n) r), None)"
proof -
  let ?k = "unat (SectorsCount t)"
  let ?ss = "map (\<lambda>i. take n (drop (i * n) r)) [0..<?k]"
  have "sector_loop (SectorInformation_Read n) 0 (t, r) =
        sector_loop (SectorInformation_Read n) (0 + ?k) (t\<lparr>Sectors := Sectors t @ ?ss\<rparr>, drop (?k * n) r)"
    by (rule sector_loop_descriptors [OF descriptors_read_SectorInformation_Read [OF assms]]) simp
  also have "\<dots> = ((t\<lparr>Sectors := Sectors t @ ?ss\<rparr>, drop (?k * n) r), None)"
    by (simp add: sector_loop_done)
  finally show ?thesis
    by (simp add: readSectorInformationBlocks_def)
qed

lemma readSectorData_SectorInformation_DataRead:
  assumes "length (Sectors t) * m \<le> length r"
  shows "readSectorData (SectorInformation_DataRead m) (t, r) =
         ((t\<lparr>Data := Data t @ map (\<lambda>i. take m (drop (i * m) r)) [0..<length (Sectors t)]\<rparr>,
           drop (length (Sectors t) * m) r), None)"
proof -
  let ?ds = "map (\<lambda>i. take m (drop (i * m) r)) [0..<length (Sectors t)]"
  have "data_loop (SectorInformation_DataRead m) 0 (Sectors t @ []) (t, r) =
        data_loop (SectorInformation_DataRead m) (0 + length (Sectors t)) []
          (t\<lparr>Data := Data t @ ?ds\<rparr>, drop (length (Sectors t) * m) r)"
    by (rule data_loop_payloads [OF payloads_read_SectorInformation_DataRead [OF assms]])
  then show ?thesis
    by (simp add: readSectorData_def)
qed

lemma setBufferToDataAddress_skip:
  assumes "24 + unat (SectorsCount t) * n \<le> 256"
    and "256 - (24 + unat (SectorsCount t) * n) \<le> length r"
  shows "setBufferToDataAddress (int n) (t, r) =
         ((t, drop (256 - (24 + unat (SectorsCount t) * n)) r), None)"
proof -
  have "sectorDataStartAddress - (trackInformationBlockSize + int (unat (SectorsCount t)) * int n) =
        int (256 - (24 + unat (SectorsCount t) * n))"
    using assms(1) by (simp add: sectorDataStartAddress_def trackInformationBlockSize_def)
  then show ?thesis
    using assms(2) by (simp add: setBufferToDataAddress_def Let_def Discard_def)
qed

lemma Read_SectorInformation:
  assumes "24 \<le> length bs"
    and "k = unat (bs ! 21)"
    and "24 + k * n \<le> 256"
    and "256 + k * m \<le> length bs"
  shows "TrackInformation_Read (SectorInformation_Read n) (SectorInformation_DataRead m) (int n)
           (TrackInformation_zero, bs) =
         ((\<lparr>Identifier = take 13 bs, Unused1 = take 3 (drop 13 bs),
            Track = bs ! 16, Side = bs ! 17, Unused2 = take 2 (drop 18 bs),
            SectorSize = bs ! 20, SectorsCount = bs ! 21,
            GapLength = bs ! 22, FillerByte = bs ! 23,
            Sectors = map (\<lambda>i. take n (drop (24 + i * n) bs)) [0..<k],
            Data = map (\<lambda>i. take m (drop (256 + i * m) bs)) [0..<k]\<rparr>,
           drop (256 + k * m) bs), None)"
proof -
  let ?z = "TrackInformation_zero :: (byte list) TrackInformation"
  let ?t1 = "?z\<lparr>Identifier := take 13 bs, Unused1 := take 3 (drop 13 bs),
                Track := bs ! 16, Side := bs ! 17, Unused2 := take 2 (drop 18 bs),
                SectorSize := bs ! 20, SectorsCount := bs ! 21,
                GapLength := bs ! 22, FillerByte := bs ! 23\<rparr>"
  let ?ss = "map (\<lambda>i. take n (drop (24 + i * n) bs)) [0..<k]"
  let ?t2 = "?t1\<lparr>Sectors := ?ss\<rparr>"
  let ?ds = "map (\<lambda>i. take m (drop (256 + i * m) bs)) [0..<k]"
  have h: "readHeader (?z, bs) = ((?t1, drop 24 bs), None)"
    using assms(1) by (intro readHeader_valid) (simp_all add: TrackInformation_zero_def)
  have c1: "unat (SectorsCount ?t1) = k"
    using assms(2) by simp
  have "readSectorInformationBlocks (SectorInformation_Read n) (?t1, drop 24 bs) =
        ((?t1\<lparr>Sectors := Sectors ?t1 @ map (\<lambda>i. take n (drop (i * n) (drop 24 bs))) [0..<unat (SectorsCount ?t1)]\<rparr>,
          drop (unat (SectorsCount ?t1) * n) (drop 24 bs)), None)"
    using assms(3,4) unfolding c1
    by (intro readSectorInformationBlocks_SectorInformation_Read [of ?t1 n "drop 24 bs", unfolded c1]) simp
  then have s: "readSectorInformationBlocks (SectorInformation_Read n) (?t1, drop 24 bs) =
        ((?t2, drop (24 + k * n) bs), None)"
    unfolding c1 by (simp add: TrackInformation_zero_def add.commute)
  have c2: "unat (SectorsCount ?t2) = k"
    using assms(2) by simp
  have "setBufferToDataAddress (int n) (?t2, drop (24 + k * n) bs) =
         ((?t2, drop (256 - (24 + unat (SectorsCount ?t2) * n)) (drop (24 + k * n) bs)), None)"
    using assms(3,4) unfolding c2
    by (intro setBufferToDataAddress_skip [of ?t2 n "drop (24 + k * n) bs", unfolded c2]) simp_all
  then have b: "setBufferToDataAddress (int n) (?t2, drop (24 + k * n) bs) =
         ((?t2, drop 256 bs), None)"
    unfolding c2 using assms(3) by simp
  have l: "length (Sectors ?t2) = k" by simp
  have "readSectorData (SectorInformation_DataRead m) (?t2, drop 256 bs) =
         ((?t2\<lparr>Data := Data ?t2 @ map (\<lambda>i. take m (drop (i * m) (drop 256 bs))) [0..<length (Sectors ?t2)]\<rparr>,
           drop (length (Sectors ?t2) * m) (drop 256 bs)), None)"
    using assms(4) unfolding l
    by (intro readSectorData_SectorInformation_DataRead [of ?t2 m "drop 256 bs", unfolded l]) simp
  then have d: "readSectorData (SectorInformation_DataRead m) (?t2, drop 256 bs) =
         ((?t2\<lparr>Data := ?ds\<rparr>, drop (256 + k * m) bs), None)"
    unfolding l by (simp add: TrackInformation_zero_def add.commute)
  have "TrackInformation_Read (SectorInformation_Read n) (SectorInformation_DataRead m) (int n) (?z, bs) =
        readSectorData (SectorInformation_DataRead m) (?t2, drop 256 bs)"
    by (rule Read_data [OF h s b])
  then show ?thesis
    using d by (simp add: TrackInformation_zero_def)
qed

subsection \<open>The claims about TrackInformation.Read\<close>

text \<open>
  Claim C4. For every \<open>TrackInformation\<close> produced by an error-free
  \<^verbatim>\<open>TrackInformation.Read\<close> from a zero-valued receiver, whatever the descriptor and
  payload readers are, \<open>len(Sectors) = SectorsCount = len(Data)\<close>.
\<close>

theorem TrackInformation_Read_lengths:
  assumes "TrackInformation_Read sread dread dsz (TrackInformation_zero, r) = ((t', r'), None)"
  shows "length (Sectors t') = unat (SectorsCount t')
       \<and> length (Data t') = unat (SectorsCount t')"
proof -
  from Read_success [OF assms] obtain t1 r1 r2 ss ds where
    ss: "descriptors_read sread (unat (SectorsCount t1)) r1 = Some (ss, r2)" and
    ds: "payloads_read dread (Sectors (TrackInformation_zero :: 'a TrackInformation) @ ss)
           (reader_at_data sread dsz (TrackInformation_zero, r)) = Some (ds, r')" and
    t': "t' = t1\<lparr>Sectors := Sectors (TrackInformation_zero :: 'a TrackInformation) @ ss,
                 Data := Data (TrackInformation_zero :: 'a TrackInformation) @ ds\<rparr>"
    by blast
  have "length ss = unat (SectorsCount t1)"
    using descriptors_read_length [OF ss] .
  moreover have "length ds = length ss"
    using payloads_read_length [OF ds] by (simp add: TrackInformation_zero_def)
  ultimately show ?thesis
    using t' by (simp add: TrackInformation_zero_def)
qed

theorem TrackInformation_Read_lengths_witness:
  "\<exists>t' r'. TrackInformation_Read (SectorInformation_Read 8) (SectorInformation_DataRead 4) 8
       (TrackInformation_zero,
        [0x54, 0x72, 0x61, 0x63, 0x6B, 0x2D, 0x49, 0x6E, 0x66, 0x6F, 0x0D, 0x0A, 0,
         0, 0, 0, 1, 0, 0, 0, 2, 2, 0x4E, 0xE5,
         1, 0, 0xC1, 2, 0, 0, 0, 0, 1, 0, 0xC2, 2, 0, 0, 0, 0]
        @ replicate 216 0
        @ [0xA1, 0xA2, 0xA3, 0xA4, 0xB1, 0xB2, 0xB3, 0xB4]) = ((t', r'), None)
     \<and> SectorsCount t' = 2 \<and> length (Sectors t') = 2 \<and> length (Data t') = 2"
proof -
  let ?bs = "[0x54, 0x72, 0x61, 0x63, 0x6B, 0x2D, 0x49, 0x6E, 0x66, 0x6F, 0x0D, 0x0A, 0,
         0, 0, 0, 1, 0, 0, 0, 2, 2, 0x4E, 0xE5,
         1, 0, 0xC1, 2, 0, 0, 0, 0, 1, 0, 0xC2, 2, 0, 0, 0, 0]
        @ replicate 216 0
        @ [0xA1, 0xA2, 0xA3, 0xA4, 0xB1, 0xB2, 0xB3, 0xB4] :: byte list"
  have "\<exists>t' r'. TrackInformation_Read (SectorInformation_Read 8) (SectorInformation_DataRead 4) (int 8)
          (TrackInformation_zero, ?bs) = ((t', r'), None) \<and> SectorsCount t' = 2"
    using Read_SectorInformation [of ?bs 2 8 4] by simp
  then obtain t' r' where
    R: "TrackInformation_Read (SectorInformation_Read 8) (SectorInformation_DataRead 4) 8
          (TrackInformation_zero, ?bs) = ((t', r'), None)"
    and c: "SectorsCount t' = 2"
    by auto
  from TrackInformation_Read_lengths [OF R] c
  have "length (Sectors t') = 2 \<and> length (Data t') = 2" by simp
  with R c show ?thesis by blast
qed

text \<open>
  Claim C5. After an error-free \<^verbatim>\<open>TrackInformation.Read\<close> from a zero-valued receiver,
  \<open>Data\<close> is the list of payloads got by one payload read per descriptor of
  \<open>Sectors\<close>, in descriptor order, from the position the discard left the reader at:
  for every index \<open>i\<close> below \<open>SectorsCount\<close>, \<open>Data[i]\<close> is what the payload read for
  \<open>Sectors[i]\<close> returned, that read started where the first \<open>i\<close> payload reads had left
  the reader (no gap, no reordering), and the reader the call leaves is the one after
  the last payload.
\<close>

theorem TrackInformation_Read_payload_order:
  assumes "TrackInformation_Read sread dread dsz (TrackInformation_zero, r) = ((t', r'), None)"
  shows "payloads_read dread (Sectors t') (reader_at_data sread dsz (TrackInformation_zero, r)) =
           Some (Data t', r')
       \<and> (\<forall>i < unat (SectorsCount t'). \<exists>ri ri'.
            payloads_read dread (take i (Sectors t'))
              (reader_at_data sread dsz (TrackInformation_zero, r)) = Some (take i (Data t'), ri)
          \<and> dread (Sectors t' ! i) ri = (Data t' ! i, ri', None)
          \<and> payloads_read dread (take (Suc i) (Sectors t'))
              (reader_at_data sread dsz (TrackInformation_zero, r)) =
                Some (take (Suc i) (Data t'), ri'))"
proof -
  let ?r0 = "reader_at_data sread dsz (TrackInformation_zero, r)"
  from Read_success [OF assms] obtain t1 r1 r2 ss ds where
    ss: "descriptors_read sread (unat (SectorsCount t1)) r1 = Some (ss, r2)" and
    ds: "payloads_read dread (Sectors (TrackInformation_zero :: 'a TrackInformation) @ ss) ?r0 =
           Some (ds, r')" and
    t': "t' = t1\<lparr>Sectors := Sectors (TrackInformation_zero :: 'a TrackInformation) @ ss,
                 Data := Data (TrackInformation_zero :: 'a TrackInformation) @ ds\<rparr>"
    by blast
  have S: "Sectors t' = ss" and D: "Data t' = ds" and C: "SectorsCount t' = SectorsCount t1"
    using t' by (simp_all add: TrackInformation_zero_def)
  have p: "payloads_read dread ss ?r0 = Some (ds, r')"
    using ds by (simp add: TrackInformation_zero_def)
  have len: "length ss = unat (SectorsCount t1)"
    using descriptors_read_length [OF ss] .
  show ?thesis
    unfolding S D C
    using p payloads_read_nth [OF p] len by simp
qed

theorem TrackInformation_Read_payload_order_witness:
  "\<exists>t' r' ri. TrackInformation_Read (SectorInformation_Read 8) (SectorInformation_DataRead 4) 8
       (TrackInformation_zero,
        [0x54, 0x72, 0x61, 0x63, 0x6B, 0x2D, 0x49, 0x6E, 0x66, 0x6F, 0x0D, 0x0A, 0,
         0, 0, 0, 1, 0, 0, 0, 2, 2, 0x4E, 0xE5,
         1, 0, 0xC1, 2, 0, 0, 0, 0, 1, 0, 0xC2, 2, 0, 0, 0, 0]
        @ replicate 216 0
        @ [0xA1, 0xA2, 0xA3, 0xA4, 0xB1, 0xB2, 0xB3, 0xB4]) = ((t', r'), None)
     \<and> Sectors t' = [[1, 0, 0xC1, 2, 0, 0, 0, 0], [1, 0, 0xC2, 2, 0, 0, 0, 0]]
     \<and> Data t' = [[0xA1, 0xA2, 0xA3, 0xA4], [0xB1, 0xB2, 0xB3, 0xB4]]
     \<and> SectorInformation_DataRead 4 (Sectors t' ! 1) ri = (Data t' ! 1, r', None)"
proof -
  let ?bs = "[0x54, 0x72, 0x61, 0x63, 0x6B, 0x2D, 0x49, 0x6E, 0x66, 0x6F, 0x0D, 0x0A, 0,
         0, 0, 0, 1, 0, 0, 0, 2, 2, 0x4E, 0xE5,
         1, 0, 0xC1, 2, 0, 0, 0, 0, 1, 0, 0xC2, 2, 0, 0, 0, 0]
        @ replicate 216 0
        @ [0xA1, 0xA2, 0xA3, 0xA4, 0xB1, 0xB2, 0xB3, 0xB4] :: byte list"
  let ?r0 = "reader_at_data (SectorInformation_Read 8) 8 (TrackInformation_zero, ?bs)"
  have u: "[0..<2] = [0, Suc 0]"
    by (simp add: upt_conv_Cons numeral_2_eq_2)
  have "\<exists>t' r'. TrackInformation_Read (SectorInformation_Read 8) (SectorInformation_DataRead 4) (int 8)
          (TrackInformation_zero, ?bs) = ((t', r'), None) \<and> SectorsCount t' = 2
        \<and> Sectors t' = [[1, 0, 0xC1, 2, 0, 0, 0, 0], [1, 0, 0xC2, 2, 0, 0, 0, 0]]
        \<and> Data t' = [[0xA1, 0xA2, 0xA3, 0xA4], [0xB1, 0xB2, 0xB3, 0xB4]]"
    using Read_SectorInformation [of ?bs 2 8 4] by (simp add: u)
  then obtain t' r' where
    R: "TrackInformation_Read (SectorInformation_Read 8) (SectorInformation_DataRead 4) 8
          (TrackInformation_zero, ?bs) = ((t', r'), None)"
    and c: "SectorsCount t' = 2"
    and S: "Sectors t' = [[1, 0, 0xC1, 2, 0, 0, 0, 0], [1, 0, 0xC2, 2, 0, 0, 0, 0]]"
    and D: "Data t' = [[0xA1, 0xA2, 0xA3, 0xA4], [0xB1, 0xB2, 0xB3, 0xB4]]"
    by auto
  from TrackInformation_Read_payload_order [OF R]
  have all: "payloads_read (SectorInformation_DataRead 4) (Sectors t') ?r0 = Some (Data t', r')"
    and nth: "\<forall>i < unat (SectorsCount t'). \<exists>ri ri'.
            payloads_read (SectorInformation_DataRead 4) (take i (Sectors t')) ?r0 =
              Some (take i (Data t'), ri)
          \<and> SectorInformation_DataRead 4 (Sectors t' ! i) ri = (Data t' ! i, ri', None)
          \<and> payloads_read (SectorInformation_DataRead 4) (take (Suc i) (Sectors t')) ?r0 =
                Some (take (Suc i) (Data t'), ri')"
    by simp_all
  from nth [rule_format, of 1] c obtain ri ri' where
    d: "SectorInformation_DataRead 4 (Sectors t' ! 1) ri = (Data t' ! 1, ri', None)" and
    p: "payloads_read (SectorInformation_DataRead 4) (take (Suc 1) (Sectors t')) ?r0 =
                Some (take (Suc 1) (Data t'), ri')"
    by auto
  have "take (Suc 1) (Sectors t') = Sectors t'" and "take (Suc 1) (Data t') = Data t'"
    by (simp_all add: S D)
  with p all have "ri' = r'" by simp
  with d R S D show ?thesis by blast
qed

text \<open>
  Claim C6. \<^verbatim>\<open>TrackInformation.Read\<close> consumes exactly 24 bytes for the track header and
  assigns the fields in the declared byte order: bytes 0 to 12 the identifier, 13 to
  15 unused, 16 the track number, 17 the side number, 18 and 19 unused, 20 the sector
  size code, 21 the sector count, 22 the gap length, 23 the filler byte. The header
  fields keep these values in whatever state the whole call ends. The hypotheses on
  the receiver are the lengths of its fixed arrays.
\<close>

theorem TrackInformation_Read_header:
  assumes "24 \<le> length bs"
    and "length (Identifier t) = 13"
    and "length (Unused1 t) = 3"
    and "length (Unused2 t) = 2"
  shows "readHeader (t, bs) =
           ((t\<lparr>Identifier := take 13 bs, Unused1 := take 3 (drop 13 bs),
                Track := bs ! 16, Side := bs ! 17, Unused2 := take 2 (drop 18 bs),
                SectorSize := bs ! 20, SectorsCount := bs ! 21,
                GapLength := bs ! 22, FillerByte := bs ! 23\<rparr>,
             drop 24 bs), None)
       \<and> (\<exists>t' r' e. TrackInformation_Read sread dread dsz (t, bs) = ((t', r'), e)
            \<and> Identifier t' = take 13 bs \<and> Unused1 t' = take 3 (drop 13 bs)
            \<and> Track t' = bs ! 16 \<and> Side t' = bs ! 17 \<and> Unused2 t' = take 2 (drop 18 bs)
            \<and> SectorSize t' = bs ! 20 \<and> SectorsCount t' = bs ! 21
            \<and> GapLength t' = bs ! 22 \<and> FillerByte t' = bs ! 23)"
proof -
  let ?t1 = "t\<lparr>Identifier := take 13 bs, Unused1 := take 3 (drop 13 bs),
                Track := bs ! 16, Side := bs ! 17, Unused2 := take 2 (drop 18 bs),
                SectorSize := bs ! 20, SectorsCount := bs ! 21,
                GapLength := bs ! 22, FillerByte := bs ! 23\<rparr>"
  have h: "readHeader (t, bs) = ((?t1, drop 24 bs), None)"
    using assms by (rule readHeader_valid)
  obtain t' r' e where R: "TrackInformation_Read sread dread dsz (t, bs) = ((t', r'), e)"
    by (metis surj_pair)
  from Read_shape [OF R h] obtain ss ds where
    "t' = ?t1\<lparr>Sectors := Sectors ?t1 @ ss, Data := Data ?t1 @ ds\<rparr>"
    by blast
  then have "Identifier t' = take 13 bs \<and> Unused1 t' = take 3 (drop 13 bs)
            \<and> Track t' = bs ! 16 \<and> Side t' = bs ! 17 \<and> Unused2 t' = take 2 (drop 18 bs)
            \<and> SectorSize t' = bs ! 20 \<and> SectorsCount t' = bs ! 21
            \<and> GapLength t' = bs ! 22 \<and> FillerByte t' = bs ! 23"
    by simp
  with h R show ?thesis by blast
qed

theorem TrackInformation_Read_header_witness:
  "readHeader (TrackInformation_zero :: (byte list) TrackInformation,
      [0x54, 0x72, 0x61, 0x63, 0x6B, 0x2D, 0x49, 0x6E, 0x66, 0x6F, 0x0D, 0x0A, 0,
       0xF1, 0xF2, 0xF3, 1, 0, 0xF4, 0xF5, 2, 9, 0x4E, 0xE5, 0xAA]) =
     ((\<lparr>Identifier = [0x54, 0x72, 0x61, 0x63, 0x6B, 0x2D, 0x49, 0x6E, 0x66, 0x6F, 0x0D, 0x0A, 0],
        Unused1 = [0xF1, 0xF2, 0xF3], Track = 1, Side = 0, Unused2 = [0xF4, 0xF5],
        SectorSize = 2, SectorsCount = 9, GapLength = 0x4E, FillerByte = 0xE5,
        Sectors = [], Data = []\<rparr>, [0xAA]), None)
   \<and> SectorsCount (fst (fst (TrackInformation_Read (SectorInformation_Read 8) (SectorInformation_DataRead 4) 8
        (TrackInformation_zero,
         [0x54, 0x72, 0x61, 0x63, 0x6B, 0x2D, 0x49, 0x6E, 0x66, 0x6F, 0x0D, 0x0A, 0,
          0xF1, 0xF2, 0xF3, 1, 0, 0xF4, 0xF5, 2, 9, 0x4E, 0xE5, 0xAA])))) = 9"
  using TrackInformation_Read_header
    [of "[0x54, 0x72, 0x61, 0x63, 0x6B, 0x2D, 0x49, 0x6E, 0x66, 0x6F, 0x0D, 0x0A, 0,
          0xF1, 0xF2, 0xF3, 1, 0, 0xF4, 0xF5, 2, 9, 0x4E, 0xE5, 0xAA]"
        "TrackInformation_zero :: (byte list) TrackInformation"
        "SectorInformation_Read 8" "SectorInformation_DataRead 4" 8]
  by (auto simp: TrackInformation_zero_def)

text \<open>
  Claim C9. \<^verbatim>\<open>TrackInformation.Read\<close> is not atomic on error. If, after the header,
  \<open>k\<close> descriptor reads succeed and read number \<open>k + 1\<close> fails, the call returns that
  error wrapped with the number \<open>k + 1\<close> and the receiver keeps the \<open>k\<close> descriptors
  appended to \<open>Sectors\<close>. If the descriptors and the discard succeed, the payload reads
  for the first \<open>j\<close> descriptors succeed and the next one (index \<open>j\<close>, the \<open>j + 1\<close>-th
  payload) fails, the call returns that error wrapped with the number \<open>j\<close> and the
  receiver keeps the \<open>j\<close> payloads appended to \<open>Data\<close>.
\<close>

theorem TrackInformation_Read_not_atomic:
  "(readHeader (t, r) = ((t1, r1), None)
      \<and> descriptors_read sread k r1 = Some (ss, rk)
      \<and> k < unat (SectorsCount t1)
      \<and> sread rk = (s, rk', Some e)
    \<longrightarrow> TrackInformation_Read sread dread dsz (t, r) =
          ((t1\<lparr>Sectors := Sectors t @ ss\<rparr>, rk'),
           Some (Wrapf e ''error reading sector #%d'' (k + 1)))
        \<and> length ss = k)
 \<and> (readHeader (t, r) = ((t1, r1), None)
      \<and> readSectorInformationBlocks sread (t1, r1) = ((t2, r2), None)
      \<and> setBufferToDataAddress dsz (t2, r2) = ((t3, r3), None)
      \<and> j < length (Sectors t3)
      \<and> payloads_read dread (take j (Sectors t3)) r3 = Some (ds, rj)
      \<and> dread (Sectors t3 ! j) rj = (d, rj', Some e')
    \<longrightarrow> TrackInformation_Read sread dread dsz (t, r) =
          ((t3\<lparr>Data := Data t @ ds\<rparr>, rj'),
           Some (Wrapf e' ''error reading sector #%d'' j))
        \<and> length ds = j)"
proof (intro conjI impI)
  assume a: "readHeader (t, r) = ((t1, r1), None)
      \<and> descriptors_read sread k r1 = Some (ss, rk)
      \<and> k < unat (SectorsCount t1)
      \<and> sread rk = (s, rk', Some e)"
  then have h: "readHeader (t, r) = ((t1, r1), None)"
    and dr: "descriptors_read sread k r1 = Some (ss, rk)"
    and k: "k < unat (SectorsCount t1)"
    and f: "sread rk = (s, rk', Some e)"
    by simp_all
  let ?t = "t1\<lparr>Sectors := Sectors t1 @ ss\<rparr>"
  have "sector_loop sread 0 (t1, r1) = sector_loop sread (0 + k) (?t, rk)"
    using k by (intro sector_loop_descriptors [OF dr]) simp
  also have "\<dots> = ((?t, rk'), Some (Wrapf e ''error reading sector #%d'' (k + 1)))"
    using k f sector_loop_fail [of k ?t sread rk s rk' e] by simp
  finally have "readSectorInformationBlocks sread (t1, r1) =
                ((?t, rk'), Some (Wrapf e ''error reading sector #%d'' (k + 1)))"
    by (simp add: readSectorInformationBlocks_def)
  from Read_descriptors_fail [OF h this]
  show "TrackInformation_Read sread dread dsz (t, r) =
          ((t1\<lparr>Sectors := Sectors t @ ss\<rparr>, rk'),
           Some (Wrapf e ''error reading sector #%d'' (k + 1)))"
    using readHeader_shape [OF h] by simp
  show "length ss = k"
    using descriptors_read_length [OF dr] .
next
  assume a: "readHeader (t, r) = ((t1, r1), None)
      \<and> readSectorInformationBlocks sread (t1, r1) = ((t2, r2), None)
      \<and> setBufferToDataAddress dsz (t2, r2) = ((t3, r3), None)
      \<and> j < length (Sectors t3)
      \<and> payloads_read dread (take j (Sectors t3)) r3 = Some (ds, rj)
      \<and> dread (Sectors t3 ! j) rj = (d, rj', Some e')"
  then have h: "readHeader (t, r) = ((t1, r1), None)"
    and s: "readSectorInformationBlocks sread (t1, r1) = ((t2, r2), None)"
    and b: "setBufferToDataAddress dsz (t2, r2) = ((t3, r3), None)"
    and j: "j < length (Sectors t3)"
    and p: "payloads_read dread (take j (Sectors t3)) r3 = Some (ds, rj)"
    and f: "dread (Sectors t3 ! j) rj = (d, rj', Some e')"
    by simp_all
  have len: "length ds = j"
    using payloads_read_length [OF p] j by simp
  have dat: "Data t3 = Data t"
  proof -
    from s obtain ss where "t2 = t1\<lparr>Sectors := Sectors t1 @ ss\<rparr>"
      using sector_loop_shape [of sread 0 t1 r1 t2 r2 None]
      by (auto simp: readSectorInformationBlocks_def)
    then show ?thesis
      using setBufferToDataAddress_shape [OF b] readHeader_shape [OF h] by simp
  qed
  have split: "Sectors t3 = take j (Sectors t3) @ (Sectors t3 ! j # drop (Suc j) (Sectors t3))"
    using j by (simp add: id_take_nth_drop [symmetric])
  have "readSectorData dread (t3, r3) =
        data_loop dread 0 (take j (Sectors t3) @ (Sectors t3 ! j # drop (Suc j) (Sectors t3))) (t3, r3)"
    using split by (simp add: readSectorData_def)
  also have "\<dots> = data_loop dread (0 + length (take j (Sectors t3)))
                    (Sectors t3 ! j # drop (Suc j) (Sectors t3)) (t3\<lparr>Data := Data t3 @ ds\<rparr>, rj)"
    by (rule data_loop_payloads [OF p])
  also have "\<dots> = ((t3\<lparr>Data := Data t3 @ ds\<rparr>, rj'), Some (Wrapf e' ''error reading sector #%d'' j))"
    using f j by simp
  finally have "readSectorData dread (t3, r3) =
        ((t3\<lparr>Data := Data t @ ds\<rparr>, rj'), Some (Wrapf e' ''error reading sector #%d'' j))"
    using dat by simp
  then show "TrackInformation_Read sread dread dsz (t, r) =
          ((t3\<lparr>Data := Data t @ ds\<rparr>, rj'),
           Some (Wrapf e' ''error reading sector #%d'' j))"
    using Read_data [OF h s b, of dread] by simp
  show "length ds = j" by (rule len)
qed

theorem TrackInformation_Read_not_atomic_witness:
  "Sectors (fst (fst (TrackInformation_Read (SectorInformation_Read 8) (SectorInformation_DataRead 4) 8
       (TrackInformation_zero,
        [0x54, 0x72, 0x61, 0x63, 0x6B, 0x2D, 0x49, 0x6E, 0x66, 0x6F, 0x0D, 0x0A, 0,
         0, 0, 0, 1, 0, 0, 0, 2, 2, 0x4E, 0xE5,
         1, 0, 0xC1, 2, 0, 0, 0, 0, 1, 0, 0xC2])))) = [[1, 0, 0xC1, 2, 0, 0, 0, 0]]
   \<and> snd (TrackInformation_Read (SectorInformation_Read 8) (SectorInformation_DataRead 4) 8
       (TrackInformation_zero,
        [0x54, 0x72, 0x61, 0x63, 0x6B, 0x2D, 0x49, 0x6E, 0x66, 0x6F, 0x0D, 0x0A, 0,
         0, 0, 0, 1, 0, 0, 0, 2, 2, 0x4E, 0xE5,
         1, 0, 0xC1, 2, 0, 0, 0, 0, 1, 0, 0xC2])) =
       Some (Wrapf TruncatedInput ''error reading sector #%d'' 2)
   \<and> Data (fst (fst (TrackInformation_Read (SectorInformation_Read 8) (SectorInformation_DataRead 4) 8
       (TrackInformation_zero,
        [0x54, 0x72, 0x61, 0x63, 0x6B, 0x2D, 0x49, 0x6E, 0x66, 0x6F, 0x0D, 0x0A, 0,
         0, 0, 0, 1, 0, 0, 0, 2, 2, 0x4E, 0xE5,
         1, 0, 0xC1, 2, 0, 0, 0, 0, 1, 0, 0xC2, 2, 0, 0, 0, 0]
        @ replicate 216 0 @ [0xA1, 0xA2, 0xA3, 0xA4, 0xB1])))) = [[0xA1, 0xA2, 0xA3, 0xA4]]
   \<and> snd (TrackInformation_Read (SectorInformation_Read 8) (SectorInformation_DataRead 4) 8
       (TrackInformation_zero,
        [0x54, 0x72, 0x61, 0x63, 0x6B, 0x2D, 0x49, 0x6E, 0x66, 0x6F, 0x0D, 0x0A, 0,
         0, 0, 0, 1, 0, 0, 0, 2, 2, 0x4E, 0xE5,
         1, 0, 0xC1, 2, 0, 0, 0, 0, 1, 0, 0xC2, 2, 0, 0, 0, 0]
        @ replicate 216 0 @ [0xA1, 0xA2, 0xA3, 0xA4, 0xB1])) =
       Some (Wrapf TruncatedInput ''error reading sector #%d'' 1)"
proof -
  let ?z = "TrackInformation_zero :: (byte list) TrackInformation"
  let ?h = "[0x54, 0x72, 0x61, 0x63, 0x6B, 0x2D, 0x49, 0x6E, 0x66, 0x6F, 0x0D, 0x0A, 0,
         0, 0, 0, 1, 0, 0, 0, 2, 2, 0x4E, 0xE5] :: byte list"
  let ?d1 = "[1, 0, 0xC1, 2, 0, 0, 0, 0] :: byte list"
  let ?d2 = "[1, 0, 0xC2, 2, 0, 0, 0, 0] :: byte list"
  let ?A = "?h @ ?d1 @ [1, 0, 0xC2]"
  let ?B = "?h @ ?d1 @ ?d2 @ replicate 216 0 @ [0xA1, 0xA2, 0xA3, 0xA4, 0xB1]"
  let ?t1 = "?z\<lparr>Identifier := take 13 ?h, Unused1 := [0, 0, 0], Track := 1, Side := 0,
               Unused2 := [0, 0], SectorSize := 2, SectorsCount := 2,
               GapLength := 0x4E, FillerByte := 0xE5\<rparr>"
  have hA: "readHeader (?z, ?A) = ((?t1, ?d1 @ [1, 0, 0xC2]), None)"
    using readHeader_valid [of ?A ?z] by (simp add: TrackInformation_zero_def)
  have dA: "descriptors_read (SectorInformation_Read 8) 1 (?d1 @ [1, 0, 0xC2]) =
            Some ([?d1], [1, 0, 0xC2])"
    using descriptors_read_SectorInformation_Read [of 1 8 "?d1 @ [1, 0, 0xC2]"] by simp
  have fA: "SectorInformation_Read 8 [1, 0, 0xC2] = ([], [1, 0, 0xC2], Some TruncatedInput)"
    by (simp add: SectorInformation_Read_short)
  have A: "TrackInformation_Read (SectorInformation_Read 8) (SectorInformation_DataRead 4) 8 (?z, ?A) =
          ((?t1\<lparr>Sectors := Sectors ?z @ [?d1]\<rparr>, [1, 0, 0xC2]),
           Some (Wrapf TruncatedInput ''error reading sector #%d'' (1 + 1)))
        \<and> length [?d1] = 1"
    using TrackInformation_Read_not_atomic
      [of ?z ?A ?t1 "?d1 @ [1, 0, 0xC2]" "SectorInformation_Read 8" 1 "[?d1]" "[1, 0, 0xC2]"
          "[]" "[1, 0, 0xC2]" TruncatedInput "SectorInformation_DataRead 4" 8]
      hA dA fA
    by simp
  let ?t2 = "?t1\<lparr>Sectors := [?d1, ?d2]\<rparr>"
  let ?r2 = "replicate 216 0 @ [0xA1, 0xA2, 0xA3, 0xA4, 0xB1] :: byte list"
  have u: "[0..<2] = [0, Suc 0]"
    by (simp add: upt_conv_Cons numeral_2_eq_2)
  have hB: "readHeader (?z, ?B) = ((?t1, ?d1 @ ?d2 @ ?r2), None)"
    using readHeader_valid [of ?B ?z] by (simp add: TrackInformation_zero_def)
  have sB: "readSectorInformationBlocks (SectorInformation_Read 8) (?t1, ?d1 @ ?d2 @ ?r2) =
            ((?t2, ?r2), None)"
    using readSectorInformationBlocks_SectorInformation_Read [of ?t1 8 "?d1 @ ?d2 @ ?r2"]
    by (simp add: u TrackInformation_zero_def)
  have bB: "setBufferToDataAddress 8 (?t2, ?r2) = ((?t2, [0xA1, 0xA2, 0xA3, 0xA4, 0xB1]), None)"
    using setBufferToDataAddress_skip [of ?t2 8 ?r2] by simp
  have pB: "payloads_read (SectorInformation_DataRead 4) (take 1 (Sectors ?t2))
              [0xA1, 0xA2, 0xA3, 0xA4, 0xB1] = Some ([[0xA1, 0xA2, 0xA3, 0xA4]], [0xB1])"
    by (simp add: SectorInformation_DataRead_ok)
  have fB: "SectorInformation_DataRead 4 (Sectors ?t2 ! 1) [0xB1] =
              ([], [0xB1], Some TruncatedInput)"
    by (simp add: SectorInformation_DataRead_short)
  have B: "TrackInformation_Read (SectorInformation_Read 8) (SectorInformation_DataRead 4) 8 (?z, ?B) =
          ((?t2\<lparr>Data := Data ?z @ [[0xA1, 0xA2, 0xA3, 0xA4]]\<rparr>, [0xB1]),
           Some (Wrapf TruncatedInput ''error reading sector #%d'' 1))
        \<and> length [[0xA1, 0xA2, 0xA3, 0xA4 :: byte]] = 1"
    using TrackInformation_Read_not_atomic
      [of ?z ?B ?t1 "?d1 @ ?d2 @ ?r2" "SectorInformation_Read 8" _ _ _ _ _ _
          "SectorInformation_DataRead 4" 8 ?t2 ?r2 ?t2 "[0xA1, 0xA2, 0xA3, 0xA4, 0xB1]" 1
          "[[0xA1, 0xA2, 0xA3, 0xA4]]" "[0xB1]" "[]" "[0xB1]" TruncatedInput]
      hB sB bB pB fB
    by simp
  show ?thesis
    using A B by (simp add: TrackInformation_zero_def)
qed

text \<open>
  Counterexample to claim C3 as stated, at a remainder of zero: with 8-byte
  descriptors, a track that declares 29 sectors has \<open>24 + 29 * 8 = 0x100\<close>, and
  \<^verbatim>\<open>TrackInformation.Read\<close> on such a track, complete with its 29 payloads of 128
  bytes, returns no error.
\<close>

theorem TrackInformation_Read_zero_remainder_accepted:
  "sectorDataStartAddress \<le> trackInformationBlockSize + int (unat (29 :: byte)) * 8
   \<and> SectorsCount (fst (fst (TrackInformation_Read (SectorInformation_Read 8) (SectorInformation_DataRead 128) 8
        (TrackInformation_zero, replicate 21 0 @ [29] @ replicate 3946 0)))) = 29
   \<and> snd (TrackInformation_Read (SectorInformation_Read 8) (SectorInformation_DataRead 128) 8
        (TrackInformation_zero, replicate 21 0 @ [29] @ replicate 3946 0)) = None"
proof -
  let ?bs = "replicate 21 0 @ [29] @ replicate 3946 0 :: byte list"
  have n: "?bs ! 21 = 29"
    by (simp add: nth_append)
  have "\<exists>t' r'. TrackInformation_Read (SectorInformation_Read 8) (SectorInformation_DataRead 128) (int 8)
          (TrackInformation_zero, ?bs) = ((t', r'), None) \<and> SectorsCount t' = 29"
    using Read_SectorInformation [of ?bs 29 8 128] n by simp
  then show ?thesis
    by (auto simp: sectorDataStartAddress_def trackInformationBlockSize_def)
qed

text \<open>
  Claim C3, as amended. The claim has \<^verbatim>\<open>TrackInformation.Read\<close> fail whenever
  \<open>24 + SectorsCount * descriptor_size\<close> is at least \<open>0x100\<close>. The code has no check of
  its own: it passes the remainder \<open>0x100 - (24 + SectorsCount * descriptor_size)\<close> to
  the reader's \<^verbatim>\<open>Discard\<close>. When the sum is greater than \<open>0x100\<close> the call always ends
  in an error, and once the header and all descriptors are read that error is the
  refused negative count, wrapped as \<^verbatim>\<open>error moving reader position to 0x0100\<close>,
  with no payload read. When the sum is exactly \<open>0x100\<close> nothing is discarded, the
  step reports no error and the call goes on to read the payloads.
\<close>

theorem TrackInformation_Read_discard:
  "(readHeader (t, r) = ((t1, r1), None)
      \<and> sectorDataStartAddress < trackInformationBlockSize + int (unat (SectorsCount t1)) * dsz
    \<longrightarrow> snd (TrackInformation_Read sread dread dsz (t, r)) \<noteq> None)
 \<and> (readHeader (t, r) = ((t1, r1), None)
      \<and> readSectorInformationBlocks sread (t1, r1) = ((t2, r2), None)
      \<and> sectorDataStartAddress < trackInformationBlockSize + int (unat (SectorsCount t1)) * dsz
    \<longrightarrow> TrackInformation_Read sread dread dsz (t, r) =
          ((t2, r2), Some (Wrap ErrNegativeCount ''error moving reader position to 0x0100'')))
 \<and> (readHeader (t, r) = ((t1, r1), None)
      \<and> readSectorInformationBlocks sread (t1, r1) = ((t2, r2), None)
      \<and> trackInformationBlockSize + int (unat (SectorsCount t1)) * dsz = sectorDataStartAddress
    \<longrightarrow> TrackInformation_Read sread dread dsz (t, r) = readSectorData dread (t2, r2))"
proof -
  have cnt: "SectorsCount u = SectorsCount t1"
    if "readSectorInformationBlocks sread (t1, r1) = ((u, v), w)" for u v w
  proof -
    from that obtain ss where "u = t1\<lparr>Sectors := Sectors t1 @ ss\<rparr>"
      using sector_loop_shape [of sread 0 t1 r1 u v w]
      by (auto simp: readSectorInformationBlocks_def)
    then show ?thesis by simp
  qed
  have neg: "TrackInformation_Read sread dread dsz (t, r) =
          ((u, v), Some (Wrap ErrNegativeCount ''error moving reader position to 0x0100''))"
    if h: "readHeader (t, r) = ((t1, r1), None)"
      and s: "readSectorInformationBlocks sread (t1, r1) = ((u, v), None)"
      and n: "sectorDataStartAddress < trackInformationBlockSize + int (unat (SectorsCount t1)) * dsz"
    for u v
  proof -
    have "setBufferToDataAddress dsz (u, v) =
          ((u, v), Some (Wrap ErrNegativeCount ''error moving reader position to 0x0100''))"
      using n cnt [OF s] by (intro setBufferToDataAddress_negative) simp
    from Read_discard_fail [OF h s this] show ?thesis .
  qed
  have always: "snd (TrackInformation_Read sread dread dsz (t, r)) \<noteq> None"
    if h: "readHeader (t, r) = ((t1, r1), None)"
      and n: "sectorDataStartAddress < trackInformationBlockSize + int (unat (SectorsCount t1)) * dsz"
  proof -
    obtain u v w where s: "readSectorInformationBlocks sread (t1, r1) = ((u, v), w)"
      by (metis surj_pair)
    show ?thesis
    proof (cases w)
      case None
      with neg [OF h _ n] s show ?thesis by simp
    next
      case (Some err)
      with Read_descriptors_fail [OF h, of sread "(u, v)" err dread dsz] s show ?thesis by simp
    qed
  qed
  have zero: "TrackInformation_Read sread dread dsz (t, r) = readSectorData dread (t2, r2)"
    if h: "readHeader (t, r) = ((t1, r1), None)"
      and s: "readSectorInformationBlocks sread (t1, r1) = ((t2, r2), None)"
      and z: "trackInformationBlockSize + int (unat (SectorsCount t1)) * dsz = sectorDataStartAddress"
  proof -
    have "setBufferToDataAddress dsz (t2, r2) = ((t2, r2), None)"
      using z cnt [OF s] by (intro setBufferToDataAddress_zero) simp
    from Read_data [OF h s this] show ?thesis .
  qed
  show ?thesis
    using always neg zero by blast
qed

theorem TrackInformation_Read_discard_witness:
  "snd (TrackInformation_Read (SectorInformation_Read 8) (SectorInformation_DataRead 128) 8
        (TrackInformation_zero, replicate 21 0 @ [30] @ replicate 242 0)) =
     Some (Wrap ErrNegativeCount ''error moving reader position to 0x0100'')
   \<and> TrackInformation_Read (SectorInformation_Read 8) (SectorInformation_DataRead 128) 8
        (TrackInformation_zero, replicate 21 0 @ [29] @ replicate 3946 0) =
     readSectorData (SectorInformation_DataRead 128)
       (fst (readSectorInformationBlocks (SectorInformation_Read 8)
          (fst (readHeader (TrackInformation_zero, replicate 21 0 @ [29] @ replicate 3946 0)))))"
proof -
  let ?z = "TrackInformation_zero :: (byte list) TrackInformation"
  let ?a = "replicate 21 0 @ [30] @ replicate 242 0 :: byte list"
  let ?b = "replicate 21 0 @ [29] @ replicate 3946 0 :: byte list"
  have na: "?a ! 21 = 30" and nb: "?b ! 21 = 29"
    by (simp_all add: nth_append)
  obtain ta where ha: "readHeader (?z, ?a) = ((ta, drop 24 ?a), None)" and ca: "SectorsCount ta = 30"
    using readHeader_valid [of ?a ?z] na by (simp add: TrackInformation_zero_def)
  obtain tb where hb: "readHeader (?z, ?b) = ((tb, drop 24 ?b), None)" and cb: "SectorsCount tb = 29"
    using readHeader_valid [of ?b ?z] nb by (simp add: TrackInformation_zero_def)
  obtain ta2 ra2 where
    sa: "readSectorInformationBlocks (SectorInformation_Read 8) (ta, drop 24 ?a) = ((ta2, ra2), None)"
    using readSectorInformationBlocks_SectorInformation_Read [of ta 8 "drop 24 ?a"] ca by simp
  obtain tb2 rb2 where
    sb: "readSectorInformationBlocks (SectorInformation_Read 8) (tb, drop 24 ?b) = ((tb2, rb2), None)"
    using readSectorInformationBlocks_SectorInformation_Read [of tb 8 "drop 24 ?b"] cb by simp
  have "TrackInformation_Read (SectorInformation_Read 8) (SectorInformation_DataRead 128) 8 (?z, ?a) =
          ((ta2, ra2), Some (Wrap ErrNegativeCount ''error moving reader position to 0x0100''))"
    using TrackInformation_Read_discard
      [of ?z ?a ta "drop 24 ?a" 8 "SectorInformation_Read 8" "SectorInformation_DataRead 128" ta2 ra2]
      ha sa ca
    by (simp add: sectorDataStartAddress_def trackInformationBlockSize_def)
  moreover have "TrackInformation_Read (SectorInformation_Read 8) (SectorInformation_DataRead 128) 8 (?z, ?b) =
          readSectorData (SectorInformation_DataRead 128) (tb2, rb2)"
    using TrackInformation_Read_discard
      [of ?z ?b tb "drop 24 ?b" 8 "SectorInformation_Read 8" "SectorInformation_DataRead 128" tb2 rb2]
      hb sb cb
    by (simp add: sectorDataStartAddress_def trackInformationBlockSize_def)
  ultimately show ?thesis
    using hb sb by simp
qed

section \<open>Properties of the control-flow resolver\<close>

lemma play_more:
  "play n dir st = Inr out \<Longrightarrow> play (n + k) dir st = Inr out"
proof (induction n arbitrary: st out)
  case 0
  then show ?case by (cases k) (auto split: if_splits)
next
  case (Suc n)
  show ?case
  proof (cases "at_end dir st")
    case True
    with Suc.prems show ?thesis by simp
  next
    case False
    with Suc.prems obtain o1 st' later where
      s: "step dir st = Inr (o1, st')" and m: "play n dir st' = Inr later" and o: "out = o1 @ later"
      by (auto split: sum.splits)
    from Suc.IH [OF m] s o False show ?thesis by simp
  qed
qed

lemma play_at_end: "at_end dir st \<Longrightarrow> play n dir st = Inr []"
  by (cases n) simp_all

lemma play_step:
  "\<not> at_end dir st \<Longrightarrow> step dir st = Inr (out, st') \<Longrightarrow> play n dir st' = Inr later \<Longrightarrow>
   play (Suc n) dir st = Inr (out @ later)"
  by simp

lemma step_DataOnly:
  "dir ! nat (current st) = DataOnly name \<Longrightarrow>
   step dir st = Inr ([nat (current st)], st\<lparr>current := current st + 1\<rparr>)"
  by (simp add: step_def Let_def)

lemma step_LoopStart:
  "dir ! nat (current st) = LoopStart c \<Longrightarrow> loops st = [] \<Longrightarrow> 0 < c \<Longrightarrow>
   step dir st = Inr ([], st\<lparr>current := current st + 1, loops := [(current st, c)]\<rparr>)"
  by (simp add: step_def Let_def)

lemma step_LoopEnd_again:
  "dir ! nat (current st) = LoopEnd \<Longrightarrow> loops st = (start, remaining) # rest \<Longrightarrow>
   1 < remaining \<Longrightarrow>
   step dir st = Inr ([], st\<lparr>current := start + 1, loops := (start, remaining - 1) # rest\<rparr>)"
  by (simp add: step_def Let_def)

lemma step_LoopEnd_last:
  "dir ! nat (current st) = LoopEnd \<Longrightarrow> loops st = (start, remaining) # rest \<Longrightarrow>
   \<not> 1 < remaining \<Longrightarrow>
   step dir st = Inr ([], st\<lparr>current := current st + 1, loops := rest\<rparr>)"
  by (simp add: step_def Let_def)

lemma play_data_run:
  assumes "\<forall>k. i \<le> k \<and> k < j \<longrightarrow> (\<exists>name. dir ! k = DataOnly name)"
    and "i \<le> j" and "j \<le> length dir"
    and "current st = int i"
    and "play n dir (st\<lparr>current := int j\<rparr>) = Inr later"
  shows "play (n + (j - i)) dir st = Inr ([i..<j] @ later)"
  using assms
proof (induction "j - i" arbitrary: i st)
  case 0
  then have "i = j" by simp
  then have "st\<lparr>current := int j\<rparr> = st" using "0.prems"(4) by simp
  then show ?case using "0.prems"(5) \<open>i = j\<close> by simp
next
  case (Suc d)
  then have lt: "i < j" by simp
  then obtain name where nm: "dir ! i = DataOnly name"
    using Suc.prems(1) by auto
  have ne: "\<not> at_end dir st"
    using lt Suc.prems(3,4) by (simp add: at_end_def)
  have st: "step dir st = Inr ([i], st\<lparr>current := int (Suc i)\<rparr>)"
    using step_DataOnly [of dir st name] nm Suc.prems(4) by (simp add: add.commute)
  have "play (n + (j - Suc i)) dir (st\<lparr>current := int (Suc i)\<rparr>) = Inr ([Suc i..<j] @ later)"
  proof (rule Suc.hyps(1))
    show "d = j - Suc i" using Suc.hyps(2) by simp
    show "\<forall>k. Suc i \<le> k \<and> k < j \<longrightarrow> (\<exists>name. dir ! k = DataOnly name)"
      using Suc.prems(1) by auto
    show "Suc i \<le> j" using lt by simp
    show "j \<le> length dir" by (rule Suc.prems(3))
    show "current (st\<lparr>current := int (Suc i)\<rparr>) = int (Suc i)" by simp
    show "play n dir (st\<lparr>current := int (Suc i)\<rparr>\<lparr>current := int j\<rparr>) = Inr later"
      using Suc.prems(5) by simp
  qed
  from play_step [OF ne st this]
  have "play (Suc (n + (j - Suc i))) dir st = Inr ([i] @ [Suc i..<j] @ later)" .
  moreover have "Suc (n + (j - Suc i)) = n + (j - i)" using lt by simp
  moreover have "[i] @ [Suc i..<j] = [i..<j]" using lt by (simp add: upt_conv_Cons)
  ultimately show ?case by (metis append.assoc)
qed

lemma play_loop_rounds:
  assumes "\<forall>k. p + 1 \<le> k \<and> k < p + 1 + b \<longrightarrow> (\<exists>name. dir ! k = DataOnly name)"
    and "dir ! (p + 1 + b) = LoopEnd"
    and "p + 1 + b < length dir"
    and "current st = int (p + 1)"
    and "loops st = [(int p, m)]"
    and "0 < m"
    and "play n dir (st\<lparr>current := int (p + b + 2), loops := []\<rparr>) = Inr later"
  shows "play (n + m * (b + 1)) dir st =
         Inr (concat (replicate m [p + 1..<p + 1 + b]) @ later)"
  using assms(4-7)
proof (induction m arbitrary: st)
  case 0
  then show ?case by simp
next
  case (Suc m)
  let ?e = "st\<lparr>current := int (p + 1 + b)\<rparr>"
  have ne: "\<not> at_end dir ?e"
    using assms(3) by (simp add: at_end_def)
  have "current ?e = int (p + 1 + b)"
    by simp
  then have "nat (current ?e) = p + 1 + b"
    by (metis nat_int)
  then have at: "dir ! nat (current ?e) = LoopEnd"
    using assms(2) by (simp only:)
  have lp: "loops ?e = (int p, Suc m) # []"
    using Suc.prems(2) by simp
  show ?case
  proof (cases "m = 0")
    case True
    have "step dir ?e = Inr ([], ?e\<lparr>current := current ?e + 1, loops := []\<rparr>)"
      using step_LoopEnd_last [of dir ?e "int p" "Suc m" "[]"] at lp True by simp
    then have stp: "step dir ?e = Inr ([], st\<lparr>current := int (p + b + 2), loops := []\<rparr>)"
      by (simp add: add.commute)
    from play_step [OF ne stp Suc.prems(4)]
    have "play (Suc n) dir ?e = Inr later" by simp
    then have f: "play (Suc n + (p + 1 + b - (p + 1))) dir st = Inr ([p + 1..<p + 1 + b] @ later)"
      using assms(1,3) Suc.prems(1)
      by (intro play_data_run) simp_all
    have eq: "Suc n + (p + 1 + b - (p + 1)) = n + Suc m * (b + 1)"
      using True by simp
    have c: "concat (replicate (Suc m) [p + 1..<p + 1 + b]) = [p + 1..<p + 1 + b]"
      using True by simp
    show ?thesis
      using f by (simp only: eq c)
  next
    case False
    let ?s = "st\<lparr>current := int p + 1, loops := [(int p, m)]\<rparr>"
    have "step dir ?e =
          Inr ([], ?e\<lparr>current := int p + 1, loops := (int p, Suc m - 1) # []\<rparr>)"
      using step_LoopEnd_again [of dir ?e "int p" "Suc m" "[]"] at lp False by simp
    then have stp: "step dir ?e = Inr ([], ?s)"
      by simp
    have "play (n + m * (b + 1)) dir ?s =
          Inr (concat (replicate m [p + 1..<p + 1 + b]) @ later)"
    proof (rule Suc.IH)
      show "current ?s = int (p + 1)" by simp
      show "loops ?s = [(int p, m)]" by simp
      show "0 < m" using False by simp
      show "play n dir (?s\<lparr>current := int (p + b + 2), loops := []\<rparr>) = Inr later"
        using Suc.prems(4) by simp
    qed
    from play_step [OF ne stp this]
    have "play (Suc (n + m * (b + 1))) dir ?e =
          Inr (concat (replicate m [p + 1..<p + 1 + b]) @ later)" by simp
    then have f: "play (Suc (n + m * (b + 1)) + (p + 1 + b - (p + 1))) dir st =
          Inr ([p + 1..<p + 1 + b] @ concat (replicate m [p + 1..<p + 1 + b]) @ later)"
      using assms(1,3) Suc.prems(1)
      by (intro play_data_run) simp_all
    have eq: "Suc (n + m * (b + 1)) + (p + 1 + b - (p + 1)) = n + Suc m * (b + 1)"
      by simp
    have c: "concat (replicate (Suc m) [p + 1..<p + 1 + b]) @ later =
             [p + 1..<p + 1 + b] @ concat (replicate m [p + 1..<p + 1 + b]) @ later"
      by simp
    show ?thesis
      using f by (simp only: eq c)
  qed
qed

text \<open>
  The rule for one loop, for any directory made of data-only blocks around a single
  \<open>LoopStart c\<close> ... \<open>LoopEnd\<close> pair with \<open>c > 0\<close>: the blocks before the loop play
  once, the indices strictly between the two markers play exactly \<open>c\<close> times, and
  play continues after \<open>LoopEnd\<close>.
\<close>

lemma play_order_single_loop:
  assumes "\<forall>x \<in> set pre \<union> set body \<union> set post. \<exists>name. x = DataOnly name"
    and "0 < c"
  shows "play_order (length pre + 1 + c * (length body + 1) + length post + k)
           (pre @ [LoopStart c] @ body @ [LoopEnd] @ post) =
         Inr ([0..<length pre]
              @ concat (replicate c [length pre + 1..<length pre + 1 + length body])
              @ [length pre + length body + 2..<length pre + length body + 2 + length post])"
proof -
  let ?p = "length pre" and ?b = "length body" and ?q = "length post"
  let ?dir = "pre @ [LoopStart c] @ body @ [LoopEnd] @ post"
  have len: "length ?dir = ?p + ?b + 2 + ?q" by simp
  have d_pre: "\<forall>k. 0 \<le> k \<and> k < ?p \<longrightarrow> (\<exists>name. ?dir ! k = DataOnly name)"
    using assms(1) by (auto simp: nth_append)
  have d_start: "?dir ! ?p = LoopStart c"
    by (simp add: nth_append)
  have d_body: "\<forall>k. ?p + 1 \<le> k \<and> k < ?p + 1 + ?b \<longrightarrow> (\<exists>name. ?dir ! k = DataOnly name)"
  proof (intro allI impI)
    fix k assume k: "?p + 1 \<le> k \<and> k < ?p + 1 + ?b"
    then have "?dir ! k = body ! (k - ?p - 1)"
      by (auto simp: nth_append nth_Cons')
    moreover have "body ! (k - ?p - 1) \<in> set body"
      using k by (intro nth_mem) linarith
    ultimately show "\<exists>name. ?dir ! k = DataOnly name"
      using assms(1) by auto
  qed
  have d_end: "?dir ! (?p + 1 + ?b) = LoopEnd"
    by (simp add: nth_append nth_Cons')
  have d_post: "\<forall>k. ?p + ?b + 2 \<le> k \<and> k < ?p + ?b + 2 + ?q \<longrightarrow> (\<exists>name. ?dir ! k = DataOnly name)"
  proof (intro allI impI)
    fix k assume k: "?p + ?b + 2 \<le> k \<and> k < ?p + ?b + 2 + ?q"
    then have "?dir ! k = post ! (k - ?p - ?b - 2)"
      by (auto simp: nth_append nth_Cons')
    moreover have "post ! (k - ?p - ?b - 2) \<in> set post"
      using k by (intro nth_mem) linarith
    ultimately show "\<exists>name. ?dir ! k = DataOnly name"
      using assms(1) by auto
  qed
  let ?s4 = "\<lparr>current = int (?p + ?b + 2 + ?q), calls = [], loops = []\<rparr>"
  let ?s3 = "\<lparr>current = int (?p + ?b + 2), calls = [], loops = []\<rparr>"
  let ?s2 = "\<lparr>current = int (?p + 1), calls = [], loops = [(int ?p, c)]\<rparr>"
  let ?s1 = "\<lparr>current = int ?p, calls = [], loops = []\<rparr>"
  have e4: "play k ?dir ?s4 = Inr []"
    by (rule play_at_end) (simp add: at_end_def)
  have e3: "play (k + (?p + ?b + 2 + ?q - (?p + ?b + 2))) ?dir ?s3 =
            Inr ([?p + ?b + 2..<?p + ?b + 2 + ?q] @ [])"
    using d_post e4 by (intro play_data_run) simp_all
  have e2: "play (k + ?q + c * (?b + 1)) ?dir ?s2 =
            Inr (concat (replicate c [?p + 1..<?p + 1 + ?b]) @ [?p + ?b + 2..<?p + ?b + 2 + ?q])"
    using d_body d_end assms(2) e3 by (intro play_loop_rounds) simp_all
  have ne: "\<not> at_end ?dir ?s1" by (simp add: at_end_def)
  have "step ?dir ?s1 = Inr ([], ?s1\<lparr>current := current ?s1 + 1, loops := [(current ?s1, c)]\<rparr>)"
    using step_LoopStart [of ?dir ?s1 c] d_start assms(2) by simp
  then have stp: "step ?dir ?s1 = Inr ([], ?s2)"
    by (simp add: add.commute)
  from play_step [OF ne stp e2]
  have e1: "play (Suc (k + ?q + c * (?b + 1))) ?dir ?s1 =
            Inr (concat (replicate c [?p + 1..<?p + 1 + ?b]) @ [?p + ?b + 2..<?p + ?b + 2 + ?q])"
    by simp
  have e0: "play (Suc (k + ?q + c * (?b + 1)) + (?p - 0)) ?dir initial_state =
        Inr ([0..<?p] @ concat (replicate c [?p + 1..<?p + 1 + ?b])
             @ [?p + ?b + 2..<?p + ?b + 2 + ?q])"
    using d_pre e1 by (intro play_data_run) (simp_all add: initial_state_def)
  have eq: "Suc (k + ?q + c * (?b + 1)) + (?p - 0) = ?p + 1 + c * (?b + 1) + ?q + k"
    by simp
  show ?thesis
    unfolding play_order_def using e0 unfolding eq .
qed

text \<open>
  Claim C8. For the six-block Tape Directory \<open>[A, LoopStart(3), B, C, LoopEnd, D]\<close>,
  with \<open>A\<close>, \<open>B\<close>, \<open>C\<close> and \<open>D\<close> data-only blocks, the effective play order is the
  index sequence \<open>0, 2, 3, 2, 3, 2, 3, 5\<close>, that is \<open>A, B, C, B, C, B, C, D\<close>: the
  indices strictly between \<open>LoopStart\<close> and \<open>LoopEnd\<close> are played exactly 3 times
  before play continues after \<open>LoopEnd\<close>. The resolver reaches the end of the tape
  within 12 steps, so every maximum step count from 12 on gives this order.
\<close>

theorem play_order_loop_example:
  "play_order (12 + k)
     [DataOnly ''A'', LoopStart 3, DataOnly ''B'', DataOnly ''C'', LoopEnd, DataOnly ''D''] =
     Inr [0, 2, 3, 2, 3, 2, 3, 5]
   \<and> map (\<lambda>i. [DataOnly ''A'', LoopStart 3, DataOnly ''B'', DataOnly ''C'', LoopEnd,
                 DataOnly ''D''] ! i) [0, 2, 3, 2, 3, 2, 3, 5] =
     [DataOnly ''A'', DataOnly ''B'', DataOnly ''C'', DataOnly ''B'', DataOnly ''C'',
      DataOnly ''B'', DataOnly ''C'', DataOnly ''D'']"
proof -
  let ?dir = "[DataOnly ''A'', LoopStart 3, DataOnly ''B'', DataOnly ''C'', LoopEnd, DataOnly ''D'']"
  have "play 12 ?dir initial_state = Inr [0, 2, 3, 2, 3, 2, 3, 5]"
    by (simp add: initial_state_def eval_nat_numeral at_end_def step_def)
  then have "play (12 + k) ?dir initial_state = Inr [0, 2, 3, 2, 3, 2, 3, 5]"
    by (rule play_more)
  then show ?thesis
    by (simp add: play_order_def)
qed

theorem play_order_loop_example_witness:
  "play_order 12
     [DataOnly ''A'', LoopStart 3, DataOnly ''B'', DataOnly ''C'', LoopEnd, DataOnly ''D''] =
     Inr [0, 2, 3, 2, 3, 2, 3, 5]"
  using play_order_loop_example [of 0] by simp

end
